theory Spec2Isabelle
  imports Complex_Main "HOL-Library.Word"
begin

section \<open>Data model of \<open>pychunkedgraph/backend/cutting.py\<close>\<close>

text \<open>
  Node identifiers are \<open>np.uint64\<close> values. The code never does arithmetic on them; it
  compares them (\<open>np.min\<close>, \<open>np.unique\<close>, \<open>np.argsort\<close>, \<open>np.searchsorted\<close>), and the
  order of \<open>64 word\<close> is the unsigned one.
\<close>

type_synonym node = "64 word"
type_synonym edge = "node \<times> node"

text \<open>
  Affinities and capacities are floating-point values. Only three things are done with
  them: \<open>np.isinf\<close>, copying, and passing them on to the flow library. A value is a
  finite number, one of the two infinities, or not-a-number.
\<close>

datatype affinity = Fin real | PInf | NInf | NaN

fun isinf :: "affinity \<Rightarrow> bool" where
  "isinf PInf = True"
| "isinf NInf = True"
| "isinf (Fin r) = False"
| "isinf NaN = False"

text \<open>\<open>float_max = np.finfo(np.float32).max\<close>, that is \<open>(2 - 2^-23) * 2^127\<close>.\<close>

definition float_max :: affinity where
  "float_max = Fin (2 ^ 128 - 2 ^ 104)"

datatype py_error = IndexError | ValueError | KeyError | AssertionError | FlowError string

subsection \<open>The part of \<open>networkx.Graph\<close> that the code uses\<close>

text \<open>
  An undirected simple graph: the nodes in insertion order, the edges as first inserted
  (an edge that is already there, in either orientation, is not stored again), and the
  \<open>capacity\<close> attribute of each edge, which \<open>G[u][v]\<close> and \<open>G[v][u]\<close> share.
\<close>

record graph =
  g_nodes :: "node list"
  g_edges :: "edge list"
  g_cap :: "edge \<Rightarrow> affinity option"

definition empty_graph :: graph where
  "empty_graph = \<lparr>g_nodes = [], g_edges = [], g_cap = (\<lambda>e. None)\<rparr>"

definition add_node :: "node \<Rightarrow> graph \<Rightarrow> graph" where
  "add_node v g = (if v \<in> set (g_nodes g) then g else g\<lparr>g_nodes := g_nodes g @ [v]\<rparr>)"

definition has_edge :: "graph \<Rightarrow> node \<Rightarrow> node \<Rightarrow> bool" where
  "has_edge g u v = ((u, v) \<in> set (g_edges g) \<or> (v, u) \<in> set (g_edges g))"

definition add_edge :: "edge \<Rightarrow> graph \<Rightarrow> graph" where
  "add_edge e g =
     (let g' = add_node (snd e) (add_node (fst e) g)
      in if has_edge g' (fst e) (snd e) then g' else g'\<lparr>g_edges := g_edges g' @ [e]\<rparr>)"

definition add_edges_from :: "edge list \<Rightarrow> graph \<Rightarrow> graph" where
  "add_edges_from es g = fold add_edge es g"

text \<open>\<open>G[u][v]['capacity'] = c\<close>: a \<open>KeyError\<close> when there is no edge between u and v.\<close>

definition set_capacity :: "edge \<Rightarrow> affinity \<Rightarrow> graph \<Rightarrow> py_error + graph" where
  "set_capacity e c g =
     (if has_edge g (fst e) (snd e)
      then Inr (g\<lparr>g_cap := (g_cap g)(e \<mapsto> c, (snd e, fst e) \<mapsto> c)\<rparr>)
      else Inl KeyError)"

definition remove_nodes_from :: "node list \<Rightarrow> graph \<Rightarrow> graph" where
  "remove_nodes_from ns g =
     \<lparr>g_nodes = filter (\<lambda>v. v \<notin> set ns) (g_nodes g),
      g_edges = filter (\<lambda>e. fst e \<notin> set ns \<and> snd e \<notin> set ns) (g_edges g),
      g_cap = (\<lambda>e. if fst e \<in> set ns \<or> snd e \<in> set ns then None else g_cap g e)\<rparr>"

definition neighbors :: "edge list \<Rightarrow> node \<Rightarrow> node list" where
  "neighbors es u =
     map snd (filter (\<lambda>e. fst e = u) es) @ map fst (filter (\<lambda>e. snd e = u) es)"

definition endpoints :: "edge list \<Rightarrow> node set" where
  "endpoints es = fst ` set es \<union> snd ` set es"

text \<open>
  \<open>networkx\<close>' breadth-first search from a start node: \<open>ws\<close> is the queue of nodes whose
  neighbours are still to be looked at, \<open>seen\<close> the nodes reached so far. The library
  returns \<open>seen\<close> as a set; the list order here stands for its iteration order.
\<close>

function plain_bfs :: "edge list \<Rightarrow> node list \<Rightarrow> node list \<Rightarrow> node list" where
  "plain_bfs es [] seen = seen"
| "plain_bfs es (v # ws) seen =
     (let new = remdups (filter (\<lambda>w. w \<notin> set seen) (neighbors es v))
      in plain_bfs es (ws @ new) (seen @ new))"
  by pat_completeness auto

lemma neighbors_endpoints: "set (neighbors es u) \<subseteq> endpoints es"
  by (auto simp: neighbors_def endpoints_def)

lemma card_unseen_step:
  assumes "finite N" and "distinct new" and "set new \<subseteq> N - S"
  shows "card (N - (S \<union> set new)) + length new = card (N - S)"
proof -
  have "N - (S \<union> set new) = (N - S) - set new" by auto
  moreover have "card ((N - S) - set new) = card (N - S) - card (set new)"
    using assms by (intro card_Diff_subset) auto
  moreover have "card (set new) \<le> card (N - S)"
    using assms by (intro card_mono) auto
  moreover have "card (set new) = length new"
    using assms(2) by (rule distinct_card)
  ultimately show ?thesis by simp
qed

termination plain_bfs
proof (relation "measure (\<lambda>(es, ws, seen). card (endpoints es - set seen) + length ws)")
  show "wf (measure (\<lambda>(es, ws, seen). card (endpoints es - set seen) + length ws))"
    by simp
next
  fix es :: "edge list" and v :: node and ws seen new :: "node list"
  assume new: "new = remdups (filter (\<lambda>w. w \<notin> set seen) (neighbors es v))"
  have "finite (endpoints es)" by (simp add: endpoints_def)
  moreover have "distinct new" by (simp add: new)
  moreover have "set new \<subseteq> endpoints es - set seen"
    using neighbors_endpoints [of es v] by (auto simp: new)
  ultimately have "card (endpoints es - (set seen \<union> set new)) + length new
      = card (endpoints es - set seen)"
    by (rule card_unseen_step)
  then show "((es, ws @ new, seen @ new), (es, v # ws, seen))
      \<in> measure (\<lambda>(es, ws, seen). card (endpoints es - set seen) + length ws)"
    by simp
qed

text \<open>
  \<open>nx.connected_components(G)\<close>: for each node of G in insertion order that no earlier
  component holds, the component found by the search from it.
\<close>

fun components_from :: "edge list \<Rightarrow> node list \<Rightarrow> node list \<Rightarrow> node list list" where
  "components_from es [] seen = []"
| "components_from es (v # vs) seen =
     (if v \<in> set seen then components_from es vs seen
      else (let c = plain_bfs es [v] [v]
            in c # components_from es vs (seen @ c)))"

definition connected_components :: "graph \<Rightarrow> node list list" where
  "connected_components g = components_from (g_edges g) (g_nodes g) []"

subsection \<open>\<open>merge_cross_chunk_edges\<close>\<close>

text \<open>Boolean-mask indexing \<open>xs[mask]\<close> of an array whose length is that of the mask.\<close>

definition mask_select :: "'a list \<Rightarrow> bool list \<Rightarrow> 'a list" where
  "mask_select xs bs = map fst (filter snd (zip xs bs))"

text \<open>Row-major flattening of an n x 2 array.\<close>

definition flatten :: "edge list \<Rightarrow> node list" where
  "flatten es = concat (map (\<lambda>e. [fst e, snd e]) es)"

text \<open>\<open>np.unique\<close>: the sorted distinct values.\<close>

definition unique :: "node list \<Rightarrow> node list" where
  "unique xs = sort (remdups xs)"

text \<open>\<open>np.min\<close> raises \<open>ValueError\<close> on an empty array.\<close>

fun np_min :: "node list \<Rightarrow> py_error + node" where
  "np_min [] = Inl ValueError"
| "np_min (x # xs) = Inr (fold min xs x)"

text \<open>
  The loop over the components (lines 31 to 40): \<open>remapping[rep_node] = nodes\<close> and the
  rows \<open>(node, rep_node)\<close> appended to \<open>mapping\<close>.
\<close>

fun collect_components ::
  "node list list \<Rightarrow> (node \<times> node) list \<times> (node \<Rightarrow> node list option)
     \<Rightarrow> py_error + ((node \<times> node) list \<times> (node \<Rightarrow> node list option))" where
  "collect_components [] acc = Inr acc"
| "collect_components (nodes # ccs) (mapping, remapping) =
     (case np_min nodes of
        Inl e \<Rightarrow> Inl e
      | Inr rep_node \<Rightarrow>
          collect_components ccs
            (mapping @ map (\<lambda>n. (n, rep_node)) nodes, remapping(rep_node \<mapsto> nodes)))"

text \<open>
  \<open>np.searchsorted(keys, x, sorter=sort_idx)\<close> on the sorted keys is the number of keys
  below x; \<open>mapping[:, 1][sort_idx][idx]\<close> then reads the second column of the sorted
  rows there, and an index past the end raises \<open>IndexError\<close>.
\<close>

definition searchsorted :: "node list \<Rightarrow> node \<Rightarrow> nat" where
  "searchsorted keys x = length (takeWhile (\<lambda>k. k < x) keys)"

definition lookup_sorted :: "(node \<times> node) list \<Rightarrow> node \<Rightarrow> py_error + node" where
  "lookup_sorted rows x =
     (let idx = searchsorted (map fst rows) x
      in if idx < length rows then Inr (snd (rows ! idx)) else Inl IndexError)"

fun remap_edges :: "(node \<times> node) list \<Rightarrow> edge list \<Rightarrow> py_error + edge list" where
  "remap_edges rows [] = Inr []"
| "remap_edges rows (e # es) =
     (case lookup_sorted rows (fst e) of
        Inl err \<Rightarrow> Inl err
      | Inr u \<Rightarrow>
          (case lookup_sorted rows (snd e) of
             Inl err \<Rightarrow> Inl err
           | Inr v \<Rightarrow>
               (case remap_edges rows es of
                  Inl err \<Rightarrow> Inl err
                | Inr res \<Rightarrow> Inr ((u, v) # res))))"

definition merge_cross_chunk_edges ::
  "edge list \<Rightarrow> affinity list
     \<Rightarrow> py_error + (edge list \<times> affinity list \<times> (node \<times> node) list
                     \<times> (node \<Rightarrow> node list option))" where
  "merge_cross_chunk_edges edges affs =
     (if length edges \<noteq> length affs then Inl IndexError
      else
        let cross_chunk_edge_mask = map isinf affs;
            cross_chunk_graph =
              add_edges_from (mask_select edges cross_chunk_edge_mask) empty_graph;
            ccs = connected_components cross_chunk_graph
        in case collect_components ccs ([], Map.empty) of
             Inl e \<Rightarrow> Inl e
           | Inr (mapping0, remapping) \<Rightarrow>
               let u_nodes = unique (flatten edges);
                   u_unmapped_nodes =
                     filter (\<lambda>n. n \<notin> set (flatten mapping0)) u_nodes;
                   mapping = mapping0 @ map (\<lambda>n. (n, n)) u_unmapped_nodes;
                   rows = sort_key fst mapping
               in case remap_edges rows edges of
                    Inl e \<Rightarrow> Inl e
                  | Inr remapped_edges \<Rightarrow>
                      Inr (mask_select remapped_edges (map Not cross_chunk_edge_mask),
                           mask_select affs (map Not cross_chunk_edge_mask),
                           mapping, remapping))"

subsection \<open>\<open>mincut\<close>\<close>

text \<open>
  \<open>np.unique(keys, return_counts=True)[1].max()\<close>: the largest multiplicity of a key;
  \<open>max\<close> of an empty array raises \<open>ValueError\<close>.
\<close>

definition max_count :: "node list \<Rightarrow> py_error + nat" where
  "max_count keys =
     (if keys = [] then Inl ValueError
      else Inr (fold max (map (count_list keys) keys) 0))"

text \<open>Lines 88 to 98: a terminal that the mapping knows is replaced by its representative.\<close>

definition remap_terminal :: "(node \<Rightarrow> node option) \<Rightarrow> node \<Rightarrow> node" where
  "remap_terminal mapping_dict t = (case mapping_dict t of Some r \<Rightarrow> r | None \<Rightarrow> t)"

fun set_capacities :: "(edge \<times> affinity) list \<Rightarrow> graph \<Rightarrow> py_error + graph" where
  "set_capacities [] g = Inr g"
| "set_capacities ((e, c) # rest) g =
     (case set_capacity e c g of
        Inl err \<Rightarrow> Inl err
      | Inr g' \<Rightarrow> set_capacities rest g')"

text \<open>
  Lines 103 to 125: the graph on the representatives. The edges are inserted first; then
  the capacities are written, the weighted edges in input order (\<open>affs[i_edge]\<close> raises
  when there are fewer affinities than edges), then every pair of sinks, then every
  pair of sources.
\<close>

definition working_graph ::
  "edge list \<Rightarrow> affinity list \<Rightarrow> node list \<Rightarrow> node list \<Rightarrow> py_error + graph" where
  "working_graph edges affs sources sinks =
     (let sink_connections = List.product sinks sinks;
          source_connections = List.product sources sources;
          weighted_graph =
            add_edges_from source_connections
              (add_edges_from sink_connections (add_edges_from edges empty_graph))
      in if length affs < length edges then Inl IndexError
         else set_capacities
                (zip edges affs
                 @ map (\<lambda>e. (e, float_max)) sink_connections
                 @ map (\<lambda>e. (e, float_max)) source_connections)
                weighted_graph)"

text \<open>\<open>np.any(np.in1d(xs, cc))\<close> and \<open>np.any(~np.in1d(xs, cc))\<close>.\<close>

definition any_in :: "node list \<Rightarrow> node list \<Rightarrow> bool" where
  "any_in xs cc = list_ex (\<lambda>x. x \<in> set cc) xs"

definition any_not_in :: "node list \<Rightarrow> node list \<Rightarrow> bool" where
  "any_not_in xs cc = list_ex (\<lambda>x. x \<notin> set cc) xs"

text \<open>
  Lines 132 to 144: a component without terminals is taken out of the graph; one with a
  terminal that misses a source or a sink ends the run (\<open>None\<close>).
\<close>

fun check_components ::
  "node list \<Rightarrow> node list \<Rightarrow> node list list \<Rightarrow> graph \<Rightarrow> graph option" where
  "check_components sources sinks [] g = Some g"
| "check_components sources sinks (cc # ccs) g =
     (if \<not> (any_in sources cc \<or> any_in sinks cc)
      then check_components sources sinks ccs (remove_nodes_from cc g)
      else if any_not_in sources cc \<or> any_not_in sinks cc then None
      else check_components sources sinks ccs g)"

text \<open>Lines 168 to 190: the cut edges back in the identifiers of the input.\<close>

definition expand :: "(node \<Rightarrow> node list option) \<Rightarrow> node \<Rightarrow> node list" where
  "expand remapping u = (case remapping u of Some nodes \<Rightarrow> nodes | None \<Rightarrow> [u])"

definition uncoalesce ::
  "(node \<Rightarrow> node list option) \<Rightarrow> edge list \<Rightarrow> edge list \<Rightarrow> edge list" where
  "uncoalesce remapping cutset original_edges =
     (let remapped_cutset =
            concat (map (\<lambda>cut.
              List.product (expand remapping (fst cut)) (expand remapping (snd cut))
              @ List.product (expand remapping (snd cut)) (expand remapping (fst cut)))
              cutset)
      in filter (\<lambda>e. e \<in> set original_edges) remapped_cutset)"

definition disconnected_message :: string where
  "disconnected_message = ''sources and sinks are in different connected components''"

text \<open>
  \<open>mincut\<close>, lines 73 to 125: coalescing, the early return on an empty edge list
  (\<open>None\<close>), the assertion, the remapped terminals and the working graph.
\<close>

definition mincut_setup ::
  "edge list \<Rightarrow> affinity list \<Rightarrow> node list \<Rightarrow> node list
     \<Rightarrow> py_error + (graph \<times> node list \<times> node list \<times> (node \<Rightarrow> node list option)) option" where
  "mincut_setup original_edges original_affs sources0 sinks0 =
     (case merge_cross_chunk_edges original_edges original_affs of
        Inl e \<Rightarrow> Inl e
      | Inr (edges, affs, mapping, remapping) \<Rightarrow>
          if edges = [] then Inr None
          else
            (case max_count (map fst mapping) of
               Inl e \<Rightarrow> Inl e
             | Inr m \<Rightarrow>
                 if m \<noteq> 1 then Inl AssertionError
                 else
                   let mapping_dict = map_of (rev mapping);
                       sinks = map (remap_terminal mapping_dict) sinks0;
                       sources = map (remap_terminal mapping_dict) sources0
                   in case working_graph edges affs sources sinks of
                        Inl e \<Rightarrow> Inl e
                      | Inr weighted_graph \<Rightarrow>
                          Inr (Some (weighted_graph, sources, sinks, remapping))))"

text \<open>
  \<open>mincut\<close>, lines 132 to 157: the check of the components and the call of the flow
  library. The library's \<open>nx.minimum_edge_cut(G, s, t, flow_func=edmonds_karp)\<close> is the
  parameter \<open>minimum_edge_cut\<close>: it may raise, return \<open>None\<close>, or return the cut as a
  collection of edges of G. The outcome is an early \<open>return []\<close> with what was printed
  before it (\<open>Inl\<close>), or the cut (\<open>Inr\<close>); \<open>list(cutset)[0]\<close> raises on an empty cut.
  The other prints of the function are timings and dumps of the data.
\<close>

definition mincut_cutset ::
  "(graph \<Rightarrow> node \<Rightarrow> node \<Rightarrow> py_error + edge list option)
     \<Rightarrow> graph \<Rightarrow> node list \<Rightarrow> node list \<Rightarrow> py_error + (string list + edge list)" where
  "mincut_cutset minimum_edge_cut weighted_graph sources sinks =
     (case check_components sources sinks (connected_components weighted_graph)
             weighted_graph of
        None \<Rightarrow> Inr (Inl [disconnected_message])
      | Some pruned \<Rightarrow>
          (case sources of
             [] \<Rightarrow> Inl IndexError
           | s # ss \<Rightarrow>
               (case sinks of
                  [] \<Rightarrow> Inl IndexError
                | t # ts \<Rightarrow>
                    (case minimum_edge_cut pruned s t of
                       Inl e \<Rightarrow> Inl e
                     | Inr None \<Rightarrow> Inr (Inl [])
                     | Inr (Some cutset) \<Rightarrow>
                         if cutset = [] then Inl IndexError else Inr (Inr cutset)))))"

text \<open>
  \<open>mincut\<close>: the two stages above, then lines 168 to 190. The result holds what was
  printed on the way to an early return and the returned edges.
\<close>

definition mincut ::
  "(graph \<Rightarrow> node \<Rightarrow> node \<Rightarrow> py_error + edge list option)
     \<Rightarrow> edge list \<Rightarrow> affinity list \<Rightarrow> node list \<Rightarrow> node list
     \<Rightarrow> py_error + (string list \<times> edge list)" where
  "mincut minimum_edge_cut original_edges original_affs sources0 sinks0 =
     (case mincut_setup original_edges original_affs sources0 sinks0 of
        Inl e \<Rightarrow> Inl e
      | Inr None \<Rightarrow> Inr ([], [])
      | Inr (Some (weighted_graph, sources, sinks, remapping)) \<Rightarrow>
          (case mincut_cutset minimum_edge_cut weighted_graph sources sinks of
             Inl e \<Rightarrow> Inl e
           | Inr (Inl printed) \<Rightarrow> Inr (printed, [])
           | Inr (Inr cutset) \<Rightarrow> Inr ([], uncoalesce remapping cutset original_edges)))"

subsection \<open>Notions for the statements about \<open>cutting.py\<close>\<close>

text \<open>
  Two nodes are adjacent when an edge joins them, in either direction; the component of
  a node is what can be reached from it over adjacent nodes.
\<close>

definition adjacent :: "edge list \<Rightarrow> (node \<times> node) set" where
  "adjacent es = set es \<union> (set es)\<inverse>"

definition component_of :: "edge list \<Rightarrow> node \<Rightarrow> node set" where
  "component_of es u = {v. (u, v) \<in> (adjacent es)\<^sup>*}"

text \<open>
  The two parts of the input: the cross-chunk edges (infinite affinity) and the weighted
  edges with their affinities.
\<close>

definition cross_edges :: "edge list \<Rightarrow> affinity list \<Rightarrow> edge list" where
  "cross_edges edges affs = mask_select edges (map isinf affs)"

definition weighted_edges :: "edge list \<Rightarrow> affinity list \<Rightarrow> edge list" where
  "weighted_edges edges affs = mask_select edges (map Not (map isinf affs))"

definition weighted_affs :: "edge list \<Rightarrow> affinity list \<Rightarrow> affinity list" where
  "weighted_affs edges affs = mask_select affs (map Not (map isinf affs))"

text \<open>
  The representative of a node: the smallest identifier in its component of the graph
  of cross-chunk edges.
\<close>

definition representative :: "edge list \<Rightarrow> affinity list \<Rightarrow> node \<Rightarrow> node" where
  "representative edges affs u = Min (component_of (cross_edges edges affs) u)"

text \<open>
  The weighted edges with both ends replaced by their representatives.
\<close>

definition coalesced_edges :: "edge list \<Rightarrow> affinity list \<Rightarrow> edge list" where
  "coalesced_edges edges affs =
     map (\<lambda>e. (representative edges affs (fst e), representative edges affs (snd e)))
       (weighted_edges edges affs)"

text \<open>
  The values that \<open>merge_cross_chunk_edges\<close> computes on the way, named for the proofs:
  the components of the cross-chunk graph, the rows and the dictionary that the loop
  builds from them, and the final \<open>mapping\<close> and \<open>remapping\<close>.
\<close>

definition cross_components :: "edge list \<Rightarrow> affinity list \<Rightarrow> node list list" where
  "cross_components edges affs =
     connected_components (add_edges_from (cross_edges edges affs) empty_graph)"

definition component_rows :: "node list list \<Rightarrow> (node \<times> node) list" where
  "component_rows ccs = concat (map (\<lambda>c. map (\<lambda>n. (n, Min (set c))) c) ccs)"

definition component_dict ::
  "node list list \<Rightarrow> (node \<Rightarrow> node list option) \<Rightarrow> (node \<Rightarrow> node list option)" where
  "component_dict ccs r = fold (\<lambda>c r. r(Min (set c) \<mapsto> c)) ccs r"

definition merge_mapping :: "edge list \<Rightarrow> affinity list \<Rightarrow> (node \<times> node) list" where
  "merge_mapping edges affs =
     component_rows (cross_components edges affs)
     @ map (\<lambda>n. (n, n))
         (filter (\<lambda>n. n \<notin> set (flatten (component_rows (cross_components edges affs))))
            (unique (flatten edges)))"

definition merge_remapping :: "edge list \<Rightarrow> affinity list \<Rightarrow> node \<Rightarrow> node list option" where
  "merge_remapping edges affs = component_dict (cross_components edges affs) Map.empty"

text \<open>
  Writing a list of capacities in order, each under both orientations of its edge; two
  edges touch when they join the same pair of nodes.
\<close>

definition touches :: "edge \<Rightarrow> edge \<Rightarrow> bool" where
  "touches e e' = (e' = e \<or> e' = (snd e, fst e))"

definition assign_caps ::
  "(edge \<times> affinity) list \<Rightarrow> (edge \<Rightarrow> affinity option) \<Rightarrow> (edge \<Rightarrow> affinity option)" where
  "assign_caps L m = fold (\<lambda>p m. m(fst p \<mapsto> snd p, (snd (fst p), fst (fst p)) \<mapsto> snd p)) L m"

text \<open>
  The working graph before the capacities are written, and the list of the writes.
\<close>

definition bare_graph :: "edge list \<Rightarrow> node list \<Rightarrow> node list \<Rightarrow> graph" where
  "bare_graph edges sources sinks =
     add_edges_from (List.product sources sources)
       (add_edges_from (List.product sinks sinks) (add_edges_from edges empty_graph))"

definition capacity_writes ::
  "edge list \<Rightarrow> affinity list \<Rightarrow> node list \<Rightarrow> node list \<Rightarrow> (edge \<times> affinity) list" where
  "capacity_writes edges affs sources sinks =
     zip edges affs
     @ map (\<lambda>e. (e, float_max)) (List.product sinks sinks)
     @ map (\<lambda>e. (e, float_max)) (List.product sources sources)"

text \<open>
  A weighted edge is overwritten when a later weighted edge joins the same pair of
  nodes; a terminal pair joins two sinks or two sources.
\<close>

definition overwritten_later :: "edge list \<Rightarrow> nat \<Rightarrow> bool" where
  "overwritten_later edges i = list_ex (touches (edges ! i)) (drop (Suc i) edges)"

definition terminal_pair :: "node list \<Rightarrow> node list \<Rightarrow> edge \<Rightarrow> bool" where
  "terminal_pair sources sinks e =
     ((fst e \<in> set sinks \<and> snd e \<in> set sinks) \<or> (fst e \<in> set sources \<and> snd e \<in> set sources))"

text \<open>
  The capacity of an edge in the working graph that \<open>mincut_setup\<close> returns.
\<close>

definition setup_capacity ::
  "py_error + (graph \<times> node list \<times> node list \<times> (node \<Rightarrow> node list option)) option
     \<Rightarrow> edge \<Rightarrow> affinity option" where
  "setup_capacity r e =
     (case r of Inr (Some (wg, sources, sinks, remapping)) \<Rightarrow> g_cap wg e | _ \<Rightarrow> None)"

text \<open>
  Inputs to run the functions on: a chain with cross-chunk edges at both ends, and a
  graph with two parallel weighted edges.
\<close>

definition chain_edges :: "edge list" where
  "chain_edges = [(10, 20), (20, 30), (30, 40)]"

definition chain_affs :: "affinity list" where
  "chain_affs = [PInf, Fin 5, PInf]"

definition parallel_edges :: "edge list" where
  "parallel_edges = [(10, 20), (20, 30), (20, 30)]"

definition parallel_affs :: "affinity list" where
  "parallel_affs = [Fin 1, Fin 2, Fin 3]"


text \<open>
  The nodes of the input edges that the mapping sends to a representative.
\<close>

definition members :: "edge list \<Rightarrow> affinity list \<Rightarrow> node \<Rightarrow> node set" where
  "members edges affs u = {x \<in> endpoints edges. representative edges affs x = u}"


definition fixed_cut :: "edge list \<Rightarrow> graph \<Rightarrow> node \<Rightarrow> node \<Rightarrow> py_error + edge list option" where
  "fixed_cut cutset g s t = Inr (Some cutset)"




definition chain_graph :: graph where
  "chain_graph =
     (bare_graph [(10, 30)] [10] [30])
       \<lparr>g_cap := assign_caps (capacity_writes [(10, 30)] [Fin 5] [10] [30]) (\<lambda>e. None)\<rparr>"

section \<open>Data model of \<open>pychunkedgraph/app/segmentation/common.py\<close>\<close>

text \<open>
  The exception classes of \<open>chunkedgraph_exceptions\<close> that the handlers catch or raise;
  \<open>HTTPKeyError\<close> is what Flask raises for a missing query argument, and
  \<open>OtherException\<close> stands for anything else that a collaborator raises.
\<close>

datatype cg_exception =
    LockingError string
  | PreconditionError string
  | PostconditionError string
  | InternalServerError string
  | BadRequest string
  | AssertionFailed
  | HTTPKeyError string
  | OtherException string

type_synonym op_id = "64 word"
type_synonym coord = "real list"

text \<open>
  \<open>GraphEditOperation.Result\<close>, with the fields that the handlers read. The handlers
  test \<open>new_root_ids\<close> against \<open>None\<close> and take the length of \<open>new_lvl2_ids\<close>.
\<close>

record edit_result =
  operation_id :: op_id
  new_root_ids :: "node list option"
  new_lvl2_ids :: "node list"

text \<open>
  A row of the operation log. The handlers read the user and the timestamp of a row.
  Modelled from the spec: the column schema of the log is declared outside the two
  source files; the spec's data model gives a log entry a kind (merge, split, undo,
  redo) and a linkage field that, in an undo or redo entry, points back to the
  original entry.
\<close>

datatype op_kind = MergeOp | SplitOp | UndoOp | RedoOp

record log_entry =
  entry_user_id :: string
  entry_timestamp :: int
  entry_kind :: op_kind
  entry_link :: "op_id option"

text \<open>
  What a handler does to its collaborators, in order: the calls into the chunked graph
  and the messages handed to the messaging client.
\<close>

datatype event =
    SupervoxelLookup "coord list" "node list"
  | AddEdges string "node list"
  | RemoveEdges string "node list" "node list" bool
  | Undo string op_id
  | Redo string op_id
  | UndoOperation string op_id
  | ReadLogRows int
  | Publish string string bool edit_result

text \<open>
  The chunked graph behind a table (\<open>app_utils.get_cg(table_id)\<close>) and the messaging
  client. They are stateful, so what a call returns is a function of the calls made so
  far and of its arguments.
\<close>

record backend =
  segmentation_resolution :: "real list"
  supervoxel_id_lookup :: "event list \<Rightarrow> coord list \<Rightarrow> node list \<Rightarrow> cg_exception + node list"
  get_chunk_coordinates :: "node \<Rightarrow> int list"
  cg_add_edges :: "event list \<Rightarrow> string \<Rightarrow> node list \<Rightarrow> coord list \<Rightarrow> coord list
                     \<Rightarrow> cg_exception + edit_result"
  cg_remove_edges :: "event list \<Rightarrow> string \<Rightarrow> node list \<Rightarrow> node list \<Rightarrow> coord list
                        \<Rightarrow> coord list \<Rightarrow> bool \<Rightarrow> cg_exception + edit_result"
  cg_undo :: "event list \<Rightarrow> string \<Rightarrow> op_id \<Rightarrow> cg_exception + edit_result"
  cg_redo :: "event list \<Rightarrow> string \<Rightarrow> op_id \<Rightarrow> cg_exception + edit_result"
  cg_undo_operation :: "event list \<Rightarrow> string \<Rightarrow> op_id \<Rightarrow> cg_exception + edit_result"
  cg_read_log_rows :: "event list \<Rightarrow> int \<Rightarrow> (op_id \<times> log_entry) list"
  publish_response :: "event list \<Rightarrow> event \<Rightarrow> cg_exception option"

text \<open>
  What Python's \<open>float\<close> makes of a string that it accepts: a number, an infinity
  (\<open>inf\<close>, \<open>1e400\<close>) or \<open>nan\<close>.
\<close>

datatype py_float = Number real | Infinity | NotANumber

text \<open>
  The request as Flask hands it over: the authenticated user, the query arguments as
  strings (\<open>start_time\<close> with the outcome of Python's \<open>float\<close> on it, \<open>None\<close> when
  \<open>float\<close> raises \<open>ValueError\<close>), and the JSON body decoded for each handler (\<open>None\<close>
  when it does not decode).
\<close>

record request =
  auth_user_id :: string
  arg_priority :: "string option"
  arg_mincut :: "string option"
  arg_user_id :: "string option"
  arg_start_time :: "py_float option option"
  body_nodes :: "(node \<times> coord) list option"
  body_sources_sinks :: "((node \<times> coord) list \<times> (node \<times> coord) list) option"
  body_operation_id :: "op_id option"

text \<open>\<open>current_app.table_id\<close>, \<open>current_app.user_id\<close>, and the calls made so far.\<close>

record app_state =
  cur_table_id :: "string option"
  cur_user_id :: "string option"
  trace :: "event list"

definition lower_char :: "char \<Rightarrow> char" where
  "lower_char c =
     (if 65 \<le> (of_char c :: nat) \<and> (of_char c :: nat) \<le> 90
      then char_of ((of_char c :: nat) + 32) else c)"

definition str2bool :: "string \<Rightarrow> bool" where
  "str2bool v = (map lower_char v \<in> set [''yes'', ''true'', ''t'', ''1''])"

text \<open>\<open>request.args.get(name, True, type=str2bool)\<close>.\<close>

definition bool_arg :: "string option \<Rightarrow> bool" where
  "bool_arg a = (case a of None \<Rightarrow> True | Some v \<Rightarrow> str2bool v)"

text \<open>
  \<open>datetime.fromtimestamp(timestamp, UTC)\<close> of the standard library, as CPython has it
  on 64-bit Linux. The timestamp is rounded to microseconds, half to even. \<open>nan\<close> is a
  \<open>ValueError\<close>; seconds outside the platform's \<open>time_t\<close> (also an infinity) are an
  \<open>OverflowError\<close>; seconds whose year \<open>gmtime\<close> cannot hold are an \<open>OSError\<close>; a year
  outside 1 to 9999 is a \<open>ValueError\<close>. The datetime is given by its microseconds since
  the epoch.
\<close>

datatype time_error = TimeValueError | TimeOverflowError | TimeOSError

definition round_half_even :: "real \<Rightarrow> int" where
  "round_half_even x =
     (let n = \<lfloor>x\<rfloor>; d = x - of_int n
      in if d < 1 / 2 then n
         else if 1 / 2 < d then n + 1
         else if even n then n else n + 1)"

definition fromtimestamp :: "py_float \<Rightarrow> time_error + int" where
  "fromtimestamp timestamp =
     (case timestamp of
        NotANumber \<Rightarrow> Inl TimeValueError
      | Infinity \<Rightarrow> Inl TimeOverflowError
      | Number t \<Rightarrow>
          let us = round_half_even (t * 1000000);
              secs = us div 1000000
          in if secs < - (2 ^ 63) \<or> 2 ^ 63 \<le> secs then Inl TimeOverflowError
             else if secs < - 67768040609740800 \<or> 67768036191676800 \<le> secs
               then Inl TimeOSError
             else if secs < - 62135596800 \<or> 253402300800 \<le> secs then Inl TimeValueError
             else Inr us)"

text \<open>
  \<open>_parse_timestamp(arg_name, 0, return_datetime=True)\<close>. An absent argument gives the
  default 0, so \<open>timestamp is None\<close> never holds. The \<open>except\<close> clause turns a
  \<open>ValueError\<close> of \<open>float\<close> or of \<open>datetime.fromtimestamp\<close> into \<open>BadRequest\<close>; an
  \<open>OverflowError\<close> or \<open>OSError\<close> is not caught.
\<close>

definition parse_timestamp :: "string \<Rightarrow> py_float option option \<Rightarrow> cg_exception + int" where
  "parse_timestamp arg_name a =
     (case (case a of None \<Rightarrow> Some (Number 0) | Some v \<Rightarrow> v) of
        None \<Rightarrow>
          Inl (BadRequest (''Timestamp parameter '' @ arg_name @ '' is not a valid unix timestamp''))
      | Some timestamp \<Rightarrow>
          (case fromtimestamp timestamp of
             Inl TimeValueError \<Rightarrow>
               Inl (BadRequest
                 (''Timestamp parameter '' @ arg_name @ '' is not a valid unix timestamp''))
           | Inl TimeOverflowError \<Rightarrow> Inl (OtherException ''OverflowError'')
           | Inl TimeOSError \<Rightarrow> Inl (OtherException ''OSError'')
           | Inr start_time \<Rightarrow> Inr start_time))"

definition record_event :: "event \<Rightarrow> app_state \<Rightarrow> app_state" where
  "record_event ev st = st\<lparr>trace := trace st @ [ev]\<rparr>"

text \<open>
  \<open>publish_edit\<close>: \<open>result.new_root_ids.tolist()\<close> fails on \<open>None\<close> before anything is
  sent; otherwise the message goes to the messaging client, which may raise.
\<close>

definition publish_edit ::
  "backend \<Rightarrow> string \<Rightarrow> string \<Rightarrow> edit_result \<Rightarrow> bool \<Rightarrow> app_state
     \<Rightarrow> cg_exception option \<times> app_state" where
  "publish_edit cg table_id user_id result is_priority st =
     (case new_root_ids result of
        None \<Rightarrow> (Some (OtherException ''AttributeError''), st)
      | Some roots \<Rightarrow>
          (let msg = Publish table_id user_id is_priority result
           in (publish_response cg (trace st) msg, record_event msg st)))"

text \<open>Lines 386 to 391 and their copies in the other handlers.\<close>

definition publish_and_return ::
  "backend \<Rightarrow> string \<Rightarrow> string \<Rightarrow> edit_result \<Rightarrow> bool \<Rightarrow> app_state
     \<Rightarrow> (cg_exception + edit_result) \<times> app_state" where
  "publish_and_return cg table_id user_id ret is_priority st =
     (if length (new_lvl2_ids ret) > 0
      then (case publish_edit cg table_id user_id ret is_priority st of
              (Some e, st') \<Rightarrow> (Inl e, st')
            | (None, st') \<Rightarrow> (Inr ret, st'))
      else (Inr ret, st))"

definition scale_coord :: "backend \<Rightarrow> coord \<Rightarrow> coord" where
  "scale_coord cg c = map2 (\<lambda>x r. x / r) c (segmentation_resolution cg)"

text \<open>
  \<open>handle_merge\<close>, lines 334 to 364: everything before the \<open>try\<close>. It yields the graph,
  the priority flag, the user, the scaled coordinates and the atomic edge.
\<close>

definition merge_setup ::
  "(string \<Rightarrow> cg_exception + backend) \<Rightarrow> string \<Rightarrow> request \<Rightarrow> app_state
     \<Rightarrow> (cg_exception + (backend \<times> bool \<times> string \<times> coord list \<times> node list)) \<times> app_state" where
  "merge_setup get_cg table_id req st0 =
     (let st1 = st0\<lparr>cur_table_id := Some table_id\<rparr>
      in case body_nodes req of
           None \<Rightarrow> (Inl (OtherException ''JSONDecodeError''), st1)
         | Some nodes \<Rightarrow>
             let is_priority = bool_arg (arg_priority req);
                 user_id = auth_user_id req;
                 st2 = st1\<lparr>cur_user_id := Some user_id\<rparr>
             in if length nodes \<noteq> 2 then (Inl AssertionFailed, st2)
                else
                  (case get_cg table_id of
                     Inl e \<Rightarrow> (Inl e, st2)
                   | Inr cg \<Rightarrow>
                       let node_ids = map fst nodes;
                           coords = map (\<lambda>n. scale_coord cg (snd n)) nodes;
                           st3 = record_event (SupervoxelLookup coords node_ids) st2
                       in case supervoxel_id_lookup cg (trace st2) coords node_ids of
                            Inl e \<Rightarrow> (Inl e, st3)
                          | Inr atomic_edge \<Rightarrow>
                              (case atomic_edge of
                                 a # b # rest \<Rightarrow>
                                   let chunk_coord_delta =
                                         map2 (\<lambda>x y. x - y) (get_chunk_coordinates cg a)
                                           (get_chunk_coordinates cg b)
                                   in if list_ex (\<lambda>d. \<bar>d\<bar> > 3) chunk_coord_delta
                                      then (Inl (BadRequest
                                        (''Chebyshev distance between merge points exceeded ''
                                         @ ''allowed maximum (3 chunks).'')), st3)
                                      else (Inr (cg, is_priority, user_id, coords, atomic_edge), st3)
                               | _ \<Rightarrow> (Inl (OtherException ''IndexError''), st3))))"

text \<open>\<open>handle_merge\<close>: the setup, then lines 366 to 391.\<close>

definition handle_merge ::
  "(string \<Rightarrow> cg_exception + backend) \<Rightarrow> string \<Rightarrow> request \<Rightarrow> app_state
     \<Rightarrow> (cg_exception + edit_result) \<times> app_state" where
  "handle_merge get_cg table_id req st0 =
     (case merge_setup get_cg table_id req st0 of
        (Inl e, st3) \<Rightarrow> (Inl e, st3)
      | (Inr (cg, is_priority, user_id, coords, atomic_edge), st3) \<Rightarrow>
          (let st4 = record_event (AddEdges user_id atomic_edge) st3
           in case cg_add_edges cg (trace st3) user_id atomic_edge
                     (take 1 coords) (drop 1 coords) of
                Inl (LockingError m) \<Rightarrow>
                  (Inl (InternalServerError
                          ''Could not acquire root lock for merge operation.''), st4)
              | Inl (PreconditionError m) \<Rightarrow> (Inl (BadRequest m), st4)
              | Inl e \<Rightarrow> (Inl e, st4)
              | Inr ret \<Rightarrow>
                  if new_root_ids ret = None
                  then (Inl (InternalServerError ''Could not merge selected supervoxel.''), st4)
                  else publish_and_return cg table_id user_id ret is_priority st4))"

text \<open>
  \<open>handle_split\<close>, lines 398 to 432: everything before the \<open>try\<close>. It yields the graph,
  the two flags, the user, and the supervoxels and coordinates of the sources and of
  the sinks.
\<close>

definition split_setup ::
  "(string \<Rightarrow> cg_exception + backend) \<Rightarrow> string \<Rightarrow> request \<Rightarrow> app_state
     \<Rightarrow> (cg_exception + (backend \<times> bool \<times> bool \<times> string \<times> node list \<times> node list
                           \<times> coord list \<times> coord list)) \<times> app_state" where
  "split_setup get_cg table_id req st0 =
     (let st1 = st0\<lparr>cur_table_id := Some table_id\<rparr>
      in case body_sources_sinks req of
           None \<Rightarrow> (Inl (OtherException ''JSONDecodeError''), st1)
         | Some (sources, sinks) \<Rightarrow>
             let is_priority = bool_arg (arg_priority req);
                 mincut_flag = bool_arg (arg_mincut req);
                 user_id = auth_user_id req;
                 st2 = st1\<lparr>cur_user_id := Some user_id\<rparr>
             in case get_cg table_id of
                  Inl e \<Rightarrow> (Inl e, st2)
                | Inr cg \<Rightarrow>
                    let node_ids = map fst (sources @ sinks);
                        coords = map (\<lambda>n. scale_coord cg (snd n)) (sources @ sinks);
                        node_idents = map (\<lambda>n. False) sources @ map (\<lambda>n. True) sinks;
                        st3 = record_event (SupervoxelLookup coords node_ids) st2
                    in case supervoxel_id_lookup cg (trace st2) coords node_ids of
                         Inl e \<Rightarrow> (Inl e, st3)
                       | Inr sv_ids \<Rightarrow>
                           if length sv_ids \<noteq> length node_idents
                           then (Inl (OtherException ''IndexError''), st3)
                           else (Inr (cg, is_priority, mincut_flag, user_id,
                                      mask_select sv_ids (map Not node_idents),
                                      mask_select sv_ids node_idents,
                                      mask_select coords (map Not node_idents),
                                      mask_select coords node_idents), st3))"

text \<open>\<open>handle_split\<close>: the setup, then lines 434 to 462.\<close>

definition handle_split ::
  "(string \<Rightarrow> cg_exception + backend) \<Rightarrow> string \<Rightarrow> request \<Rightarrow> app_state
     \<Rightarrow> (cg_exception + edit_result) \<times> app_state" where
  "handle_split get_cg table_id req st0 =
     (case split_setup get_cg table_id req st0 of
        (Inl e, st3) \<Rightarrow> (Inl e, st3)
      | (Inr (cg, is_priority, mincut_flag, user_id, source_ids, sink_ids,
              source_coords, sink_coords), st3) \<Rightarrow>
          (let st4 = record_event (RemoveEdges user_id source_ids sink_ids mincut_flag) st3
           in case cg_remove_edges cg (trace st3) user_id source_ids sink_ids
                     source_coords sink_coords mincut_flag of
                Inl (LockingError m) \<Rightarrow>
                  (Inl (InternalServerError
                          ''Could not acquire root lock for split operation.''), st4)
              | Inl (PreconditionError m) \<Rightarrow> (Inl (BadRequest m), st4)
              | Inl e \<Rightarrow> (Inl e, st4)
              | Inr ret \<Rightarrow>
                  if new_root_ids ret = None
                  then (Inl (InternalServerError ''Could not split selected segment groups.''), st4)
                  else publish_and_return cg table_id user_id ret is_priority st4))"

definition deny_list :: "string list" where
  "deny_list = [''fly_v26'', ''fly_v31'']"

text \<open>The \<open>try\<close> block shared by \<open>handle_undo\<close>, \<open>handle_redo\<close> and the loop of \<open>handle_rollback\<close>.\<close>

definition convert_undo_error :: "string \<Rightarrow> cg_exception \<Rightarrow> cg_exception" where
  "convert_undo_error what e =
     (case e of
        LockingError m \<Rightarrow>
          InternalServerError (''Could not acquire root lock for '' @ what @ '' operation.'')
      | PreconditionError m \<Rightarrow> BadRequest m
      | PostconditionError m \<Rightarrow> BadRequest m
      | _ \<Rightarrow> e)"

definition handle_undo ::
  "(string \<Rightarrow> cg_exception + backend) \<Rightarrow> string \<Rightarrow> request \<Rightarrow> app_state
     \<Rightarrow> (cg_exception + edit_result) \<times> app_state" where
  "handle_undo get_cg table_id req st0 =
     (if table_id \<in> set deny_list
      then (Inl (InternalServerError ''Undo not supported for this chunkedgraph table.''), st0)
      else
        let st1 = st0\<lparr>cur_table_id := Some table_id\<rparr>
        in case body_operation_id req of
             None \<Rightarrow> (Inl (OtherException ''JSONDecodeError''), st1)
           | Some opid \<Rightarrow>
               let is_priority = bool_arg (arg_priority req);
                   user_id = auth_user_id req;
                   st2 = st1\<lparr>cur_user_id := Some user_id\<rparr>
               in case get_cg table_id of
                    Inl e \<Rightarrow> (Inl e, st2)
                  | Inr cg \<Rightarrow>
                      (let st3 = record_event (Undo user_id opid) st2
                       in case cg_undo cg (trace st2) user_id opid of
                            Inl e \<Rightarrow> (Inl (convert_undo_error ''undo'' e), st3)
                          | Inr ret \<Rightarrow>
                              publish_and_return cg table_id user_id ret is_priority st3))"

definition handle_redo ::
  "(string \<Rightarrow> cg_exception + backend) \<Rightarrow> string \<Rightarrow> request \<Rightarrow> app_state
     \<Rightarrow> (cg_exception + edit_result) \<times> app_state" where
  "handle_redo get_cg table_id req st0 =
     (if table_id \<in> set deny_list
      then (Inl (InternalServerError ''Redo not supported for this chunkedgraph table.''), st0)
      else
        let st1 = st0\<lparr>cur_table_id := Some table_id\<rparr>
        in case body_operation_id req of
             None \<Rightarrow> (Inl (OtherException ''JSONDecodeError''), st1)
           | Some opid \<Rightarrow>
               let is_priority = bool_arg (arg_priority req);
                   user_id = auth_user_id req;
                   st2 = st1\<lparr>cur_user_id := Some user_id\<rparr>
               in case get_cg table_id of
                    Inl e \<Rightarrow> (Inl e, st2)
                  | Inr cg \<Rightarrow>
                      (let st3 = record_event (Redo user_id opid) st2
                       in case cg_redo cg (trace st2) user_id opid of
                            Inl e \<Rightarrow> (Inl (convert_undo_error ''redo'' e), st3)
                          | Inr ret \<Rightarrow>
                              publish_and_return cg table_id user_id ret is_priority st3))"

text \<open>
  \<open>all_user_operations\<close>: the rows of the log since \<open>start_time\<close>, in ascending order of
  their keys, that belong to the user named in the query.
\<close>

definition all_user_operations ::
  "(string \<Rightarrow> cg_exception + backend) \<Rightarrow> string \<Rightarrow> request \<Rightarrow> app_state
     \<Rightarrow> (cg_exception + (op_id list \<times> int list)) \<times> app_state" where
  "all_user_operations get_cg table_id req st0 =
     (let st1 = st0\<lparr>cur_table_id := Some table_id, cur_user_id := Some (auth_user_id req)\<rparr>
      in case arg_user_id req of
           None \<Rightarrow> (Inl (HTTPKeyError ''user_id''), st1)
         | Some target_user_id \<Rightarrow>
             (case parse_timestamp ''start_time'' (arg_start_time req) of
                Inl e \<Rightarrow> (Inl e, st1)
              | Inr start_time \<Rightarrow>
                  (case get_cg table_id of
                     Inl e \<Rightarrow> (Inl e, st1)
                   | Inr cg_instance \<Rightarrow>
                       let log_rows = cg_read_log_rows cg_instance (trace st1) start_time;
                           st2 = record_event (ReadLogRows start_time) st1;
                           entry_ids = sort (remdups (map fst log_rows));
                           valid_entry_ids =
                             filter (\<lambda>entry_id.
                               (case map_of log_rows entry_id of
                                  Some entry \<Rightarrow> entry_user_id entry = target_user_id
                                | None \<Rightarrow> False)) entry_ids;
                           timestamp_list =
                             map (\<lambda>entry_id.
                               (case map_of log_rows entry_id of
                                  Some entry \<Rightarrow> entry_timestamp entry
                                | None \<Rightarrow> 0)) valid_entry_ids
                       in (Inr (valid_entry_ids, timestamp_list), st2))))"

text \<open>The loop of \<open>handle_rollback\<close> (lines 568 to 580); the first exception ends it.\<close>

fun rollback_loop ::
  "backend \<Rightarrow> string \<Rightarrow> string \<Rightarrow> string \<Rightarrow> (op_id \<times> int) list \<Rightarrow> app_state
     \<Rightarrow> cg_exception option \<times> app_state" where
  "rollback_loop cg table_id user_id target_user_id [] st = (None, st)"
| "rollback_loop cg table_id user_id target_user_id (operation # operations) st =
     (let st1 = record_event (UndoOperation target_user_id (fst operation)) st
      in case cg_undo_operation cg (trace st) target_user_id (fst operation) of
           Inl e \<Rightarrow> (Some (convert_undo_error ''undo'' e), st1)
         | Inr ret \<Rightarrow>
             if length (new_lvl2_ids ret) > 0
             then (case publish_edit cg table_id user_id ret False st1 of
                     (Some e, st2) \<Rightarrow> (Some e, st2)
                   | (None, st2) \<Rightarrow>
                       rollback_loop cg table_id user_id target_user_id operations st2)
             else rollback_loop cg table_id user_id target_user_id operations st1)"

text \<open>\<open>operations.sort(key=lambda op: op[1], reverse=True)\<close>: stable, largest key first.\<close>

definition sort_reverse :: "(op_id \<times> int) list \<Rightarrow> (op_id \<times> int) list" where
  "sort_reverse ops = rev (sort_key snd (rev ops))"

definition handle_rollback ::
  "(string \<Rightarrow> cg_exception + backend) \<Rightarrow> string \<Rightarrow> request \<Rightarrow> app_state
     \<Rightarrow> (cg_exception + (op_id list \<times> int list)) \<times> app_state" where
  "handle_rollback get_cg table_id req st0 =
     (if table_id \<in> set deny_list
      then (Inl (InternalServerError ''Rollback not supported for this chunkedgraph table.''), st0)
      else
        let user_id = auth_user_id req;
            st1 = st0\<lparr>cur_table_id := Some table_id, cur_user_id := Some user_id\<rparr>
        in case arg_user_id req of
             None \<Rightarrow> (Inl (HTTPKeyError ''user_id''), st1)
           | Some target_user_id \<Rightarrow>
               (case get_cg table_id of
                  Inl e \<Rightarrow> (Inl e, st1)
                | Inr cg \<Rightarrow>
                    (case all_user_operations get_cg table_id req st1 of
                       (Inl e, st2) \<Rightarrow> (Inl e, st2)
                     | (Inr user_operations, st2) \<Rightarrow>
                         (let operations =
                                sort_reverse (zip (fst user_operations) (snd user_operations))
                          in case rollback_loop cg table_id user_id target_user_id operations st2 of
                               (Some e, st3) \<Rightarrow> (Inl e, st3)
                             | (None, st3) \<Rightarrow> (Inr user_operations, st3)))))"

text \<open>
  Modelled from the spec: the exception classes and their status codes are declared in
  \<open>chunkedgraph_exceptions\<close>, which is not among the source files. The spec (section 7)
  has \<open>BadRequest\<close> for faults of the request and \<open>Internal\<close> for faults of the server;
  \<open>unhandled_exception\<close> answers every exception that is not an API error with 500.
\<close>

fun status_code :: "cg_exception \<Rightarrow> nat" where
  "status_code (BadRequest m) = 400"
| "status_code (HTTPKeyError m) = 400"
| "status_code (InternalServerError m) = 500"
| "status_code (LockingError m) = 500"
| "status_code (PreconditionError m) = 500"
| "status_code (PostconditionError m) = 500"
| "status_code AssertionFailed = 500"
| "status_code (OtherException m) = 500"

definition is_client_error :: "cg_exception \<Rightarrow> bool" where
  "is_client_error e = (400 \<le> status_code e \<and> status_code e < 500)"

fun is_bad_request :: "cg_exception \<Rightarrow> bool" where
  "is_bad_request (BadRequest m) = True"
| "is_bad_request (LockingError m) = False"
| "is_bad_request (PreconditionError m) = False"
| "is_bad_request (PostconditionError m) = False"
| "is_bad_request (InternalServerError m) = False"
| "is_bad_request AssertionFailed = False"
| "is_bad_request (HTTPKeyError m) = False"
| "is_bad_request (OtherException m) = False"

text \<open>The messages in a trace, and the calls of \<open>undo_operation\<close> in a trace.\<close>

fun is_publish :: "event \<Rightarrow> bool" where
  "is_publish (Publish t u p r) = True"
| "is_publish (SupervoxelLookup cs ns) = False"
| "is_publish (AddEdges u e) = False"
| "is_publish (RemoveEdges u a b m) = False"
| "is_publish (Undo u i) = False"
| "is_publish (Redo u i) = False"
| "is_publish (UndoOperation u i) = False"
| "is_publish (ReadLogRows t) = False"

definition published :: "event list \<Rightarrow> event list" where
  "published tr = filter is_publish tr"

fun undo_call :: "event \<Rightarrow> (string \<times> op_id) list" where
  "undo_call (UndoOperation u i) = [(u, i)]"
| "undo_call (Publish t u p r) = []"
| "undo_call (SupervoxelLookup cs ns) = []"
| "undo_call (AddEdges u e) = []"
| "undo_call (RemoveEdges u a b m) = []"
| "undo_call (Undo u i) = []"
| "undo_call (Redo u i) = []"
| "undo_call (ReadLogRows t) = []"

definition undo_calls :: "event list \<Rightarrow> (string \<times> op_id) list" where
  "undo_calls tr = concat (map undo_call tr)"

text \<open>
  The exception that a handler ends with, if any.
\<close>

definition raised :: "cg_exception + 'a \<Rightarrow> cg_exception option" where
  "raised r = (case r of Inl e \<Rightarrow> Some e | Inr v \<Rightarrow> None)"

text \<open>
  What follows in the trace of a rollback after an operation is done with: nothing, and
  then the loop has run to its end without an exception, or the next call of
  \<open>undo_operation\<close> in the name of the target user.
\<close>

definition next_undo :: "string \<Rightarrow> event list \<Rightarrow> cg_exception option \<Rightarrow> bool" where
  "next_undo target_user_id post outcome =
     (case post of
        [] \<Rightarrow> outcome = None
      | ev # rest \<Rightarrow> (case ev of UndoOperation u j \<Rightarrow> u = target_user_id | _ \<Rightarrow> False))"

text \<open>
  What follows a call of \<open>undo_operation\<close> that a rollback made on operation \<open>i\<close> after
  the events \<open>pre\<close>, given the answers of the collaborators. If the call raised, the
  trace ends there and the handler ends with the converted exception. If it returned a
  result without new level-2 identifiers, the next operation follows. Otherwise the
  message for the result follows (when \<open>new_root_ids\<close> is \<open>None\<close> building the message
  fails and the trace ends); if the messaging client raised, the trace ends with the
  message and the handler ends with that exception; if not, the next operation follows.
\<close>

definition undo_followed ::
  "backend \<Rightarrow> string \<Rightarrow> string \<Rightarrow> string \<Rightarrow> event list \<Rightarrow> op_id \<Rightarrow> event list
     \<Rightarrow> cg_exception option \<Rightarrow> bool" where
  "undo_followed cg table_id user_id target_user_id pre i post outcome =
     (case cg_undo_operation cg pre target_user_id i of
        Inl e \<Rightarrow> post = [] \<and> outcome = Some (convert_undo_error ''undo'' e)
      | Inr ret \<Rightarrow>
          if new_lvl2_ids ret = [] then next_undo target_user_id post outcome
          else if new_root_ids ret = None
            then post = [] \<and> outcome = Some (OtherException ''AttributeError'')
          else
            (case post of
               [] \<Rightarrow> False
             | ev # post' \<Rightarrow>
                 ev = Publish table_id user_id False ret
                 \<and> (case publish_response cg (pre @ [UndoOperation target_user_id i]) ev of
                      Some e \<Rightarrow> post' = [] \<and> outcome = Some e
                    | None \<Rightarrow> next_undo target_user_id post' outcome)))"

text \<open>
  The events of a successful edit request: the call of the edit, then the message for
  its result when the result has new level-2 identifiers. The message can be sent when
  \<open>new_root_ids\<close> is not \<open>None\<close> and the messaging client does not raise.
\<close>

definition edit_events :: "event \<Rightarrow> string \<Rightarrow> request \<Rightarrow> edit_result \<Rightarrow> event list" where
  "edit_events call table_id req ret =
     call # (if new_lvl2_ids ret = [] then []
             else [Publish table_id (auth_user_id req) (bool_arg (arg_priority req)) ret])"

definition publish_accepted ::
  "backend \<Rightarrow> event list \<Rightarrow> string \<Rightarrow> request \<Rightarrow> edit_result \<Rightarrow> bool" where
  "publish_accepted cg tr table_id req ret =
     (new_lvl2_ids ret = []
      \<or> (new_root_ids ret \<noteq> None
         \<and> publish_response cg tr
             (Publish table_id (auth_user_id req) (bool_arg (arg_priority req)) ret) = None))"

subsection \<open>A request, a state and a backend to run the handlers on\<close>

definition initial_state :: app_state where
  "initial_state = \<lparr>cur_table_id = None, cur_user_id = None, trace = []\<rparr>"

definition example_request :: request where
  "example_request =
     \<lparr>auth_user_id = ''alice'', arg_priority = None, arg_mincut = None,
      arg_user_id = Some ''bob'', arg_start_time = None,
      body_nodes = Some [(10, [0, 0, 0]), (11, [4, 4, 4])],
      body_sources_sinks = Some ([(10, [0, 0, 0])], [(11, [4, 4, 4])]),
      body_operation_id = Some 7\<rparr>"

definition example_backend ::
  "(cg_exception + edit_result) \<Rightarrow> (op_id \<times> log_entry) list \<Rightarrow> backend" where
  "example_backend outcome rows =
     \<lparr>segmentation_resolution = [1, 1, 1],
      supervoxel_id_lookup = (\<lambda>tr coords node_ids. Inr node_ids),
      get_chunk_coordinates = (\<lambda>n. [0, 0, 0]),
      cg_add_edges = (\<lambda>tr u e a b. outcome),
      cg_remove_edges = (\<lambda>tr u a b c d m. outcome),
      cg_undo = (\<lambda>tr u i. outcome),
      cg_redo = (\<lambda>tr u i. outcome),
      cg_undo_operation = (\<lambda>tr u i. outcome),
      cg_read_log_rows = (\<lambda>tr t. rows),
      publish_response = (\<lambda>tr ev. None)\<rparr>"

definition example_get_cg ::
  "(cg_exception + edit_result) \<Rightarrow> (op_id \<times> log_entry) list \<Rightarrow> string
     \<Rightarrow> cg_exception + backend" where
  "example_get_cg outcome rows table_id = Inr (example_backend outcome rows)"

definition empty_roots_result :: edit_result where
  "empty_roots_result = \<lparr>operation_id = 7, new_root_ids = Some [], new_lvl2_ids = []\<rparr>"

definition some_roots_result :: edit_result where
  "some_roots_result = \<lparr>operation_id = 7, new_root_ids = Some [100], new_lvl2_ids = [200, 201]\<rparr>"

definition none_roots_result :: edit_result where
  "none_roots_result = \<lparr>operation_id = 7, new_root_ids = None, new_lvl2_ids = []\<rparr>"

definition locking_get_cg :: "string \<Rightarrow> cg_exception + backend" where
  "locking_get_cg = example_get_cg (Inl (LockingError ''busy'')) []"

definition precondition_get_cg :: "string \<Rightarrow> cg_exception + backend" where
  "precondition_get_cg = example_get_cg (Inl (PreconditionError ''illegal split'')) []"

definition empty_roots_get_cg :: "string \<Rightarrow> cg_exception + backend" where
  "empty_roots_get_cg = example_get_cg (Inr empty_roots_result) []"

definition none_roots_get_cg :: "string \<Rightarrow> cg_exception + backend" where
  "none_roots_get_cg = example_get_cg (Inr none_roots_result) []"

definition some_roots_get_cg :: "string \<Rightarrow> cg_exception + backend" where
  "some_roots_get_cg = example_get_cg (Inr some_roots_result) []"

definition merge_coords :: "coord list" where
  "merge_coords = [[0, 0, 0], [4, 4, 4]]"

definition after_lookup :: app_state where
  "after_lookup =
     \<lparr>cur_table_id = Some ''minnie'', cur_user_id = Some ''alice'',
      trace = [SupervoxelLookup merge_coords [10, 11]]\<rparr>"

text \<open>
  For the statements about rollback: the timestamp that the log gives an operation, and
  the operations that the log attributes to a user.
\<close>

definition timestamp_of :: "(op_id \<times> log_entry) list \<Rightarrow> op_id \<Rightarrow> int" where
  "timestamp_of rows i = (case map_of rows i of Some e \<Rightarrow> entry_timestamp e | None \<Rightarrow> 0)"

definition operations_of :: "(op_id \<times> log_entry) list \<Rightarrow> string \<Rightarrow> op_id set" where
  "operations_of rows target =
     {i. \<exists>e. map_of rows i = Some e \<and> entry_user_id e = target}"

text \<open>
  Modelled from the spec: how the log marks an undone operation is declared outside the
  two source files. By the spec's data model an undo is itself a log entry whose linkage
  field points back to the entry it undoes; an operation is already undone when the log
  holds such an entry for it.
\<close>

definition already_undone :: "(op_id \<times> log_entry) list \<Rightarrow> op_id \<Rightarrow> bool" where
  "already_undone rows i =
     list_ex (\<lambda>r. entry_kind (snd r) = UndoOp \<and> entry_link (snd r) = Some i) rows"

text \<open>
  A log in which Bob merged (3) and split (5), and Alice has undone the merge (4).
\<close>

definition example_log :: "(op_id \<times> log_entry) list" where
  "example_log =
     [(3, \<lparr>entry_user_id = ''bob'', entry_timestamp = 10, entry_kind = MergeOp,
           entry_link = None\<rparr>),
      (4, \<lparr>entry_user_id = ''alice'', entry_timestamp = 20, entry_kind = UndoOp,
           entry_link = Some 3\<rparr>),
      (5, \<lparr>entry_user_id = ''bob'', entry_timestamp = 30, entry_kind = SplitOp,
           entry_link = None\<rparr>)]"

definition rollback_get_cg :: "string \<Rightarrow> cg_exception + backend" where
  "rollback_get_cg = example_get_cg (Inr some_roots_result) example_log"

text \<open>
  The same log behind a graph whose \<open>undo_operation\<close> cannot take the root lock.
\<close>

definition failing_rollback_get_cg :: "string \<Rightarrow> cg_exception + backend" where
  "failing_rollback_get_cg = example_get_cg (Inl (LockingError ''busy'')) example_log"

text \<open>
  The same log behind a graph whose undos succeed, with a messaging client that raises.
\<close>

definition unpublished_backend :: backend where
  "unpublished_backend =
     (example_backend (Inr some_roots_result) example_log)
       \<lparr>publish_response := (\<lambda>tr ev. Some (OtherException ''ConnectionError''))\<rparr>"

definition unpublished_rollback_get_cg :: "string \<Rightarrow> cg_exception + backend" where
  "unpublished_rollback_get_cg table_id = Inr unpublished_backend"

text \<open>
  The state after a successful merge, split, undo or redo of the example request.
\<close>

definition after_merge :: "edit_result \<Rightarrow> app_state" where
  "after_merge ret =
     after_lookup\<lparr>trace := trace after_lookup
       @ edit_events (AddEdges ''alice'' [10, 11]) ''minnie'' example_request ret\<rparr>"

definition after_split :: "edit_result \<Rightarrow> app_state" where
  "after_split ret =
     after_lookup\<lparr>trace := trace after_lookup
       @ edit_events (RemoveEdges ''alice'' [10] [11] True) ''minnie'' example_request ret\<rparr>"

definition after_edit :: "event \<Rightarrow> edit_result \<Rightarrow> app_state" where
  "after_edit call ret =
     initial_state\<lparr>cur_table_id := Some ''minnie'', cur_user_id := Some ''alice'',
       trace := trace initial_state @ edit_events call ''minnie'' example_request ret\<rparr>"

section \<open>The handlers of \<open>common.py\<close>: lemmas\<close>

lemmas example_defs = initial_state_def example_request_def example_backend_def
  example_get_cg_def empty_roots_result_def some_roots_result_def none_roots_result_def
  locking_get_cg_def precondition_get_cg_def empty_roots_get_cg_def none_roots_get_cg_def
  some_roots_get_cg_def

lemmas handler_defs = handle_merge_def merge_setup_def handle_split_def split_setup_def
  handle_undo_def handle_redo_def publish_and_return_def publish_edit_def record_event_def
  bool_arg_def scale_coord_def mask_select_def deny_list_def convert_undo_error_def Let_def

lemma merge_setup_Inr:
  assumes "merge_setup get_cg table_id req st0 = (Inr (cg, p, u, coords, ae), st3)"
  shows "p = bool_arg (arg_priority req)" and "u = auth_user_id req"
    and "published (trace st3) = published (trace st0)"
  using assms
  by (auto simp: merge_setup_def Let_def record_event_def published_def
      split: option.splits sum.splits list.splits if_splits)

lemma split_setup_Inr:
  assumes "split_setup get_cg table_id req st0 = (Inr (cg, p, m, u, a, b, c, d), st3)"
  shows "p = bool_arg (arg_priority req)" and "u = auth_user_id req"
    and "published (trace st3) = published (trace st0)"
  using assms
  by (auto simp: split_setup_def Let_def record_event_def published_def
      split: option.splits sum.splits list.splits if_splits prod.splits)

lemma publish_and_return_iff:
  "publish_and_return cg t u ret p st = (Inr r, st')
   \<longleftrightarrow> r = ret
       \<and> (new_lvl2_ids ret = []
          \<or> (new_root_ids ret \<noteq> None \<and> publish_response cg (trace st) (Publish t u p ret) = None))
       \<and> st' = st\<lparr>trace := trace st
                     @ (if new_lvl2_ids ret = [] then [] else [Publish t u p ret])\<rparr>"
  by (cases "new_root_ids ret"; cases "publish_response cg (trace st) (Publish t u p ret)")
     (auto simp: publish_and_return_def publish_edit_def record_event_def Let_def)

lemma handle_merge_iff:
  "handle_merge get_cg table_id req st0 = (Inr ret, st')
   \<longleftrightarrow> (\<exists>cg p u coords atomic_edge st3.
         merge_setup get_cg table_id req st0 = (Inr (cg, p, u, coords, atomic_edge), st3)
       \<and> cg_add_edges cg (trace st3) u atomic_edge (take 1 coords) (drop 1 coords) = Inr ret
       \<and> new_root_ids ret \<noteq> None
       \<and> publish_accepted cg (trace st3 @ [AddEdges u atomic_edge]) table_id req ret
       \<and> st' = st3\<lparr>trace := trace st3 @ edit_events (AddEdges u atomic_edge) table_id req ret\<rparr>)"
proof (cases "merge_setup get_cg table_id req st0")
  case (Pair r st3)
  show ?thesis
  proof (cases r)
    case (Inl e)
    with Pair show ?thesis by (simp add: handle_merge_def)
  next
    case (Inr tup)
    obtain cg p u coords ae where tup: "tup = (cg, p, u, coords, ae)" by (cases tup)
    note su = Pair [unfolded Inr tup]
    note s = merge_setup_Inr(1,2) [OF su]
    define st4 where "st4 = record_event (AddEdges u ae) st3"
    have st4: "trace st4 = trace st3 @ [AddEdges u ae]" by (simp add: st4_def record_event_def)
    show ?thesis
    proof (cases "cg_add_edges cg (trace st3) u ae (take 1 coords) (drop 1 coords)")
      case (Inl e)
      then have "isl (fst (handle_merge get_cg table_id req st0))"
        by (cases e) (simp_all add: handle_merge_def su Let_def)
      then have "handle_merge get_cg table_id req st0 \<noteq> (Inr ret, st')" by auto
      with Inl su show ?thesis by simp
    next
      case (Inr ret')
      show ?thesis
      proof (cases "new_root_ids ret'")
        case None
        with Inr have "isl (fst (handle_merge get_cg table_id req st0))"
          by (simp add: handle_merge_def su Let_def)
        then have "handle_merge get_cg table_id req st0 \<noteq> (Inr ret, st')" by auto
        with Inr su None show ?thesis by auto
      next
        case (Some roots)
        with Inr have eq: "handle_merge get_cg table_id req st0
            = publish_and_return cg table_id u ret' p st4"
          by (simp add: handle_merge_def su Let_def st4_def)
        have st4': "st4\<lparr>trace := trace st4 @ xs\<rparr>
            = st3\<lparr>trace := trace st3 @ AddEdges u ae # xs\<rparr>" for xs
          by (simp add: st4_def record_event_def)
        show ?thesis
          unfolding eq publish_and_return_iff su st4'
          using Some Inr
          by (auto simp: s publish_accepted_def edit_events_def st4)
      qed
    qed
  qed
qed

lemma handle_split_iff:
  "handle_split get_cg table_id req st0 = (Inr ret, st')
   \<longleftrightarrow> (\<exists>cg p m u sources sinks source_coords sink_coords st3.
         split_setup get_cg table_id req st0
           = (Inr (cg, p, m, u, sources, sinks, source_coords, sink_coords), st3)
       \<and> cg_remove_edges cg (trace st3) u sources sinks source_coords sink_coords m = Inr ret
       \<and> new_root_ids ret \<noteq> None
       \<and> publish_accepted cg (trace st3 @ [RemoveEdges u sources sinks m]) table_id req ret
       \<and> st' = st3\<lparr>trace := trace st3
                       @ edit_events (RemoveEdges u sources sinks m) table_id req ret\<rparr>)"
proof (cases "split_setup get_cg table_id req st0")
  case (Pair r st3)
  show ?thesis
  proof (cases r)
    case (Inl e)
    with Pair show ?thesis by (simp add: handle_split_def)
  next
    case (Inr tup)
    obtain cg p m u a b c d where tup: "tup = (cg, p, m, u, a, b, c, d)"
      by (cases tup) auto
    note su = Pair [unfolded Inr tup]
    note s = split_setup_Inr(1,2) [OF su]
    define st4 where "st4 = record_event (RemoveEdges u a b m) st3"
    have st4: "trace st4 = trace st3 @ [RemoveEdges u a b m]"
      by (simp add: st4_def record_event_def)
    show ?thesis
    proof (cases "cg_remove_edges cg (trace st3) u a b c d m")
      case (Inl e)
      then have "isl (fst (handle_split get_cg table_id req st0))"
        by (cases e) (simp_all add: handle_split_def su Let_def)
      then have "handle_split get_cg table_id req st0 \<noteq> (Inr ret, st')" by auto
      with Inl su show ?thesis by simp
    next
      case (Inr ret')
      show ?thesis
      proof (cases "new_root_ids ret'")
        case None
        with Inr have "isl (fst (handle_split get_cg table_id req st0))"
          by (simp add: handle_split_def su Let_def)
        then have "handle_split get_cg table_id req st0 \<noteq> (Inr ret, st')" by auto
        with Inr su None show ?thesis by auto
      next
        case (Some roots)
        with Inr have eq: "handle_split get_cg table_id req st0
            = publish_and_return cg table_id u ret' p st4"
          by (simp add: handle_split_def su Let_def st4_def)
        have st4': "st4\<lparr>trace := trace st4 @ xs\<rparr>
            = st3\<lparr>trace := trace st3 @ RemoveEdges u a b m # xs\<rparr>" for xs
          by (simp add: st4_def record_event_def)
        show ?thesis
          unfolding eq publish_and_return_iff su st4'
          using Some Inr
          by (auto simp: s publish_accepted_def edit_events_def st4)
      qed
    qed
  qed
qed

lemma handle_undo_iff:
  "handle_undo get_cg table_id req st0 = (Inr ret, st')
   \<longleftrightarrow> table_id \<notin> set deny_list
       \<and> (\<exists>opid cg.
             body_operation_id req = Some opid
           \<and> get_cg table_id = Inr cg
           \<and> cg_undo cg (trace st0) (auth_user_id req) opid = Inr ret
           \<and> publish_accepted cg (trace st0 @ [Undo (auth_user_id req) opid]) table_id req ret
           \<and> st' = st0\<lparr>cur_table_id := Some table_id, cur_user_id := Some (auth_user_id req),
                         trace := trace st0
                           @ edit_events (Undo (auth_user_id req) opid) table_id req ret\<rparr>)"
proof (cases "table_id \<in> set deny_list")
  case True
  then show ?thesis by (simp add: handle_undo_def)
next
  case deny: False
  show ?thesis
  proof (cases "body_operation_id req")
    case None
    with deny show ?thesis by (simp add: handle_undo_def Let_def)
  next
    case (Some opid)
    show ?thesis
    proof (cases "get_cg table_id")
      case (Inl e)
      with deny Some show ?thesis by (simp add: handle_undo_def Let_def)
    next
      case (Inr cg)
      define st2 where
        "st2 = st0\<lparr>cur_table_id := Some table_id, cur_user_id := Some (auth_user_id req)\<rparr>"
      define st3 where "st3 = record_event (Undo (auth_user_id req) opid) st2"
      have st3: "trace st3 = trace st0 @ [Undo (auth_user_id req) opid]"
        by (simp add: st3_def st2_def record_event_def)
      have st3': "st3\<lparr>trace := trace st3 @ xs\<rparr>
          = st0\<lparr>cur_table_id := Some table_id, cur_user_id := Some (auth_user_id req),
                trace := trace st0 @ Undo (auth_user_id req) opid # xs\<rparr>" for xs
        by (simp add: st3_def st2_def record_event_def)
      show ?thesis
      proof (cases "cg_undo cg (trace st0) (auth_user_id req) opid")
        case (Inl e)
        with deny Some Inr have "isl (fst (handle_undo get_cg table_id req st0))"
          by (simp add: handle_undo_def Let_def)
        then have "handle_undo get_cg table_id req st0 \<noteq> (Inr ret, st')" by auto
        with deny Some Inr Inl show ?thesis by simp
      next
        case edit: (Inr ret')
        from deny Some Inr edit have eq: "handle_undo get_cg table_id req st0
            = publish_and_return cg table_id (auth_user_id req) ret'
                (bool_arg (arg_priority req)) st3"
          by (simp add: handle_undo_def Let_def st2_def st3_def)
        show ?thesis
          unfolding eq publish_and_return_iff st3'
          using deny Some Inr edit
          by (auto simp: publish_accepted_def edit_events_def st3)
      qed
    qed
  qed
qed

lemma handle_redo_iff:
  "handle_redo get_cg table_id req st0 = (Inr ret, st')
   \<longleftrightarrow> table_id \<notin> set deny_list
       \<and> (\<exists>opid cg.
             body_operation_id req = Some opid
           \<and> get_cg table_id = Inr cg
           \<and> cg_redo cg (trace st0) (auth_user_id req) opid = Inr ret
           \<and> publish_accepted cg (trace st0 @ [Redo (auth_user_id req) opid]) table_id req ret
           \<and> st' = st0\<lparr>cur_table_id := Some table_id, cur_user_id := Some (auth_user_id req),
                         trace := trace st0
                           @ edit_events (Redo (auth_user_id req) opid) table_id req ret\<rparr>)"
proof (cases "table_id \<in> set deny_list")
  case True
  then show ?thesis by (simp add: handle_redo_def)
next
  case deny: False
  show ?thesis
  proof (cases "body_operation_id req")
    case None
    with deny show ?thesis by (simp add: handle_redo_def Let_def)
  next
    case (Some opid)
    show ?thesis
    proof (cases "get_cg table_id")
      case (Inl e)
      with deny Some show ?thesis by (simp add: handle_redo_def Let_def)
    next
      case (Inr cg)
      define st2 where
        "st2 = st0\<lparr>cur_table_id := Some table_id, cur_user_id := Some (auth_user_id req)\<rparr>"
      define st3 where "st3 = record_event (Redo (auth_user_id req) opid) st2"
      have st3: "trace st3 = trace st0 @ [Redo (auth_user_id req) opid]"
        by (simp add: st3_def st2_def record_event_def)
      have st3': "st3\<lparr>trace := trace st3 @ xs\<rparr>
          = st0\<lparr>cur_table_id := Some table_id, cur_user_id := Some (auth_user_id req),
                trace := trace st0 @ Redo (auth_user_id req) opid # xs\<rparr>" for xs
        by (simp add: st3_def st2_def record_event_def)
      show ?thesis
      proof (cases "cg_redo cg (trace st0) (auth_user_id req) opid")
        case (Inl e)
        with deny Some Inr have "isl (fst (handle_redo get_cg table_id req st0))"
          by (simp add: handle_redo_def Let_def)
        then have "handle_redo get_cg table_id req st0 \<noteq> (Inr ret, st')" by auto
        with deny Some Inr Inl show ?thesis by simp
      next
        case edit: (Inr ret')
        from deny Some Inr edit have eq: "handle_redo get_cg table_id req st0
            = publish_and_return cg table_id (auth_user_id req) ret'
                (bool_arg (arg_priority req)) st3"
          by (simp add: handle_redo_def Let_def st2_def st3_def)
        show ?thesis
          unfolding eq publish_and_return_iff st3'
          using deny Some Inr edit
          by (auto simp: publish_accepted_def edit_events_def st3)
      qed
    qed
  qed
qed

lemma merge_setup_example:
  "merge_setup (example_get_cg outcome rows) ''minnie'' example_request initial_state
   = (Inr (example_backend outcome rows, True, ''alice'', merge_coords, [10, 11]), after_lookup)"
  by (simp add: example_defs handler_defs merge_coords_def after_lookup_def)

lemma split_setup_example:
  "split_setup (example_get_cg outcome rows) ''minnie'' example_request initial_state
   = (Inr (example_backend outcome rows, True, True, ''alice'', [10], [11],
           [[0, 0, 0]], [[4, 4, 4]]), after_lookup)"
  by (simp add: example_defs handler_defs merge_coords_def after_lookup_def)

lemma merge_example_returns:
  assumes "new_root_ids r \<noteq> None"
  shows "\<exists>cg p u coords atomic_edge st3.
          merge_setup (example_get_cg (Inr r) []) ''minnie'' example_request initial_state
            = (Inr (cg, p, u, coords, atomic_edge), st3)
        \<and> cg_add_edges cg (trace st3) u atomic_edge (take 1 coords) (drop 1 coords) = Inr r
        \<and> new_root_ids r \<noteq> None
        \<and> publish_accepted cg (trace st3 @ [AddEdges u atomic_edge]) ''minnie'' example_request r
        \<and> after_merge r = st3\<lparr>trace := trace st3
                        @ edit_events (AddEdges u atomic_edge) ''minnie'' example_request r\<rparr>"
  apply (intro exI conjI)
      apply (rule merge_setup_example)
     apply (simp add: example_backend_def)
    apply (rule assms)
   apply (simp add: publish_accepted_def example_backend_def assms)
  apply (simp add: after_merge_def)
  done

lemma split_example_returns:
  assumes "new_root_ids r \<noteq> None"
  shows "\<exists>cg p m u sources sinks source_coords sink_coords st3.
          split_setup (example_get_cg (Inr r) []) ''minnie'' example_request initial_state
            = (Inr (cg, p, m, u, sources, sinks, source_coords, sink_coords), st3)
        \<and> cg_remove_edges cg (trace st3) u sources sinks source_coords sink_coords m = Inr r
        \<and> new_root_ids r \<noteq> None
        \<and> publish_accepted cg (trace st3 @ [RemoveEdges u sources sinks m]) ''minnie''
            example_request r
        \<and> after_split r = st3\<lparr>trace := trace st3
                        @ edit_events (RemoveEdges u sources sinks m) ''minnie'' example_request r\<rparr>"
  apply (intro exI conjI)
      apply (rule split_setup_example)
     apply (simp add: example_backend_def)
    apply (rule assms)
   apply (simp add: publish_accepted_def example_backend_def assms)
  apply (simp add: after_split_def)
  done

lemma undo_example_returns:
  assumes "new_root_ids r \<noteq> None"
  shows "''minnie'' \<notin> set deny_list
        \<and> (\<exists>opid cg.
              body_operation_id example_request = Some opid
            \<and> example_get_cg (Inr r) [] ''minnie'' = Inr cg
            \<and> cg_undo cg (trace initial_state) (auth_user_id example_request) opid = Inr r
            \<and> publish_accepted cg
                 (trace initial_state @ [Undo (auth_user_id example_request) opid])
                 ''minnie'' example_request r
            \<and> after_edit (Undo ''alice'' 7) r
              = initial_state\<lparr>cur_table_id := Some ''minnie'',
                  cur_user_id := Some (auth_user_id example_request),
                  trace := trace initial_state
                    @ edit_events (Undo (auth_user_id example_request) opid) ''minnie''
                        example_request r\<rparr>)"
  apply (intro exI [of _ 7] exI [of _ "example_backend (Inr r) []"] conjI)
       apply (simp add: deny_list_def)
      apply (simp add: example_request_def)
     apply (simp add: example_get_cg_def)
    apply (simp add: example_backend_def)
   apply (simp add: publish_accepted_def example_backend_def assms)
  apply (simp add: after_edit_def example_request_def)
  done

lemma redo_example_returns:
  assumes "new_root_ids r \<noteq> None"
  shows "''minnie'' \<notin> set deny_list
        \<and> (\<exists>opid cg.
              body_operation_id example_request = Some opid
            \<and> example_get_cg (Inr r) [] ''minnie'' = Inr cg
            \<and> cg_redo cg (trace initial_state) (auth_user_id example_request) opid = Inr r
            \<and> publish_accepted cg
                 (trace initial_state @ [Redo (auth_user_id example_request) opid])
                 ''minnie'' example_request r
            \<and> after_edit (Redo ''alice'' 7) r
              = initial_state\<lparr>cur_table_id := Some ''minnie'',
                  cur_user_id := Some (auth_user_id example_request),
                  trace := trace initial_state
                    @ edit_events (Redo (auth_user_id example_request) opid) ''minnie''
                        example_request r\<rparr>)"
  apply (intro exI [of _ 7] exI [of _ "example_backend (Inr r) []"] conjI)
       apply (simp add: deny_list_def)
      apply (simp add: example_request_def)
     apply (simp add: example_get_cg_def)
    apply (simp add: example_backend_def)
   apply (simp add: publish_accepted_def example_backend_def assms)
  apply (simp add: after_edit_def example_request_def)
  done

lemma example_traces:
  "trace (after_merge some_roots_result)
   = [SupervoxelLookup merge_coords [10, 11], AddEdges ''alice'' [10, 11],
      Publish ''minnie'' ''alice'' True some_roots_result]"
  "trace (after_merge empty_roots_result)
   = [SupervoxelLookup merge_coords [10, 11], AddEdges ''alice'' [10, 11]]"
  "trace (after_split some_roots_result)
   = [SupervoxelLookup merge_coords [10, 11], RemoveEdges ''alice'' [10] [11] True,
      Publish ''minnie'' ''alice'' True some_roots_result]"
  "trace (after_split empty_roots_result)
   = [SupervoxelLookup merge_coords [10, 11], RemoveEdges ''alice'' [10] [11] True]"
  "trace (after_edit call some_roots_result)
   = [call, Publish ''minnie'' ''alice'' True some_roots_result]"
  "trace (after_edit call empty_roots_result) = [call]"
  by (simp_all add: after_merge_def after_split_def after_edit_def edit_events_def
      after_lookup_def initial_state_def example_request_def bool_arg_def
      some_roots_result_def empty_roots_result_def)

lemma undo_calls_append: "undo_calls (xs @ ys) = undo_calls xs @ undo_calls ys"
  by (simp add: undo_calls_def)

lemma publish_edit_undo_calls:
  "undo_calls (trace (snd (publish_edit cg t u ret p st))) = undo_calls (trace st)"
  by (simp add: publish_edit_def record_event_def undo_calls_def Let_def split: option.splits)

lemma rollback_loop_calls:
  "\<exists>n. n \<le> length ops \<and>
     undo_calls (trace (snd (rollback_loop cg t u target ops st)))
       = undo_calls (trace st) @ map (\<lambda>op. (target, fst op)) (take n ops)
     \<and> (fst (rollback_loop cg t u target ops st) = None \<longrightarrow> n = length ops)"
proof (induction ops arbitrary: st)
  case Nil
  then show ?case by simp
next
  case (Cons op ops)
  define st1 where "st1 = record_event (UndoOperation target (fst op)) st"
  have st1: "undo_calls (trace st1) = undo_calls (trace st) @ [(target, fst op)]"
    by (simp add: st1_def record_event_def undo_calls_def)
  show ?case
  proof (cases "cg_undo_operation cg (trace st) target (fst op)")
    case (Inl e)
    then have eq: "rollback_loop cg t u target (op # ops) st
        = (Some (convert_undo_error ''undo'' e), st1)"
      by (simp add: st1_def Let_def)
    have "undo_calls (trace (snd (rollback_loop cg t u target (op # ops) st)))
        = undo_calls (trace st) @ map (\<lambda>op. (target, fst op)) (take (Suc 0) (op # ops))"
      unfolding eq by (simp add: st1 del: rollback_loop.simps)
    moreover have "fst (rollback_loop cg t u target (op # ops) st) = None
        \<longrightarrow> Suc 0 = length (op # ops)"
      unfolding eq by simp
    moreover have "Suc 0 \<le> length (op # ops)" by simp
    ultimately show ?thesis by (intro exI [of _ "Suc 0"] conjI)
  next
    case (Inr ret)
    show ?thesis
    proof (cases "length (new_lvl2_ids ret) > 0")
      case False
      then have eq: "rollback_loop cg t u target (op # ops) st
          = rollback_loop cg t u target ops st1"
        using Inr by (simp add: st1_def Let_def)
      from Cons.IH [of st1] obtain n where n: "n \<le> length ops"
        "undo_calls (trace (snd (rollback_loop cg t u target ops st1)))
           = undo_calls (trace st1) @ map (\<lambda>op. (target, fst op)) (take n ops)"
        "fst (rollback_loop cg t u target ops st1) = None \<longrightarrow> n = length ops"
        by (elim exE conjE)
      have "undo_calls (trace (snd (rollback_loop cg t u target (op # ops) st)))
          = undo_calls (trace st) @ map (\<lambda>op. (target, fst op)) (take (Suc n) (op # ops))"
        unfolding eq n(2) st1 by simp
      moreover have "fst (rollback_loop cg t u target (op # ops) st) = None
          \<longrightarrow> Suc n = length (op # ops)"
        unfolding eq using n(3) by simp
      moreover have "Suc n \<le> length (op # ops)" using n(1) by simp
      ultimately show ?thesis by (intro exI [of _ "Suc n"] conjI)
    next
      case True
      obtain r st2 where pe: "publish_edit cg t u ret False st1 = (r, st2)"
        by (cases "publish_edit cg t u ret False st1")
      have st2: "undo_calls (trace st2) = undo_calls (trace st) @ [(target, fst op)]"
        using publish_edit_undo_calls [of cg t u ret False st1] pe st1 by simp
      show ?thesis
      proof (cases r)
        case (Some e)
        then have eq: "rollback_loop cg t u target (op # ops) st = (Some e, st2)"
          using Inr True pe by (simp add: st1_def Let_def)
        have "undo_calls (trace (snd (rollback_loop cg t u target (op # ops) st)))
            = undo_calls (trace st) @ map (\<lambda>op. (target, fst op)) (take (Suc 0) (op # ops))"
          unfolding eq by (simp add: st2 del: rollback_loop.simps)
        moreover have "fst (rollback_loop cg t u target (op # ops) st) = None
            \<longrightarrow> Suc 0 = length (op # ops)"
          unfolding eq by simp
        moreover have "Suc 0 \<le> length (op # ops)" by simp
        ultimately show ?thesis by (intro exI [of _ "Suc 0"] conjI)
      next
        case None
        then have eq: "rollback_loop cg t u target (op # ops) st
            = rollback_loop cg t u target ops st2"
          using Inr True pe by (simp add: st1_def Let_def)
        from Cons.IH [of st2] obtain n where n: "n \<le> length ops"
          "undo_calls (trace (snd (rollback_loop cg t u target ops st2)))
             = undo_calls (trace st2) @ map (\<lambda>op. (target, fst op)) (take n ops)"
          "fst (rollback_loop cg t u target ops st2) = None \<longrightarrow> n = length ops"
          by (elim exE conjE)
        have "undo_calls (trace (snd (rollback_loop cg t u target (op # ops) st)))
          = undo_calls (trace st) @ map (\<lambda>op. (target, fst op)) (take (Suc n) (op # ops))"
        unfolding eq n(2) st2 by simp
      moreover have "fst (rollback_loop cg t u target (op # ops) st) = None
          \<longrightarrow> Suc n = length (op # ops)"
        unfolding eq using n(3) by simp
      moreover have "Suc n \<le> length (op # ops)" using n(1) by simp
      ultimately show ?thesis by (intro exI [of _ "Suc n"] conjI)
      qed
    qed
  qed
qed

lemma sort_reverse_props:
  assumes "distinct ids"
  shows "distinct (map fst (sort_reverse (zip ids (map f ids))))"
    and "set (map fst (sort_reverse (zip ids (map f ids)))) = set ids"
    and "sorted (rev (map f (map fst (sort_reverse (zip ids (map f ids))))))"
proof -
  let ?z = "zip ids (map f ids)"
  have z: "?z = map (\<lambda>i. (i, f i)) ids"
    by (induction ids) simp_all
  have fstz: "map fst ?z = ids" by (simp add: z comp_def)
  have inj: "inj_on fst (set ?z)" by (auto simp: z inj_on_def)
  have dz: "distinct ?z" using assms by (simp add: z distinct_map inj_on_def)
  have set_sr: "set (sort_reverse ?z) = set ?z" by (simp add: sort_reverse_def)
  show "distinct (map fst (sort_reverse ?z))"
    using dz inj by (simp add: distinct_map sort_reverse_def)
  show "set (map fst (sort_reverse ?z)) = set ids"
    using set_sr fstz by (metis set_map)
  have "\<forall>p \<in> set (sort_reverse ?z). f (fst p) = snd p"
    unfolding set_sr by (auto simp: z)
  then have "map f (map fst (sort_reverse ?z)) = map snd (sort_reverse ?z)"
    by simp
  moreover have "rev (map snd (sort_reverse ?z)) = map snd (sort_key snd (rev ?z))"
    by (simp add: sort_reverse_def rev_map)
  ultimately show "sorted (rev (map f (map fst (sort_reverse ?z))))"
    by (simp only: sorted_sort_key)
qed

lemma all_user_operations_Inr:
  assumes "arg_user_id req = Some target"
    and "parse_timestamp ''start_time'' (arg_start_time req) = Inr start"
    and "get_cg table_id = Inr cg"
  shows "\<exists>ids st2.
     all_user_operations get_cg table_id req st1
       = (Inr (ids, map (timestamp_of (cg_read_log_rows cg (trace st1) start)) ids), st2)
     \<and> trace st2 = trace st1 @ [ReadLogRows start]
     \<and> distinct ids
     \<and> set ids = operations_of (cg_read_log_rows cg (trace st1) start) target"
proof -
  define rows where "rows = cg_read_log_rows cg (trace st1) start"
  define ids where "ids = filter (\<lambda>entry_id.
      (case map_of rows entry_id of
         Some entry \<Rightarrow> entry_user_id entry = target
       | None \<Rightarrow> False)) (sort (remdups (map fst rows)))"
  have d: "distinct ids" by (simp add: ids_def)
  have s: "set ids = operations_of rows target"
    by (auto simp: ids_def operations_of_def split: option.splits dest: map_of_SomeD)
       (metis fst_conv image_eqI map_of_SomeD)
  have ts: "map (\<lambda>entry_id. (case map_of rows entry_id of
                Some entry \<Rightarrow> entry_timestamp entry | None \<Rightarrow> 0)) ids
            = map (timestamp_of rows) ids"
    by (simp add: timestamp_of_def)
  have "all_user_operations get_cg table_id req st1
      = (Inr (ids, map (timestamp_of rows) ids),
         record_event (ReadLogRows start)
           (st1\<lparr>cur_table_id := Some table_id, cur_user_id := Some (auth_user_id req)\<rparr>))"
    using assms by (simp add: all_user_operations_def Let_def rows_def ids_def timestamp_of_def)
  then show ?thesis using d s unfolding rows_def
    by (intro exI conjI) (assumption, simp_all add: record_event_def)
qed


lemma rollback_loop_run:
  "\<exists>rest. trace (snd (rollback_loop cg t u target ops st)) = trace st @ rest
     \<and> next_undo target rest (fst (rollback_loop cg t u target ops st))
     \<and> (ops = [] \<longrightarrow> rest = [])
     \<and> (\<forall>pre i post. rest = pre @ UndoOperation target i # post \<longrightarrow>
           undo_followed cg t u target (trace st @ pre) i post
             (fst (rollback_loop cg t u target ops st)))"
proof (induction ops arbitrary: st)
  case Nil
  then show ?case by (simp add: next_undo_def)
next
  case (Cons op ops)
  let ?U = "UndoOperation target (fst op)"
  let ?L = "rollback_loop cg t u target (op # ops) st"
  define st1 where "st1 = record_event ?U st"
  have st1: "trace st1 = trace st @ [?U]"
    by (simp add: st1_def record_event_def)
  have split: "pre = [] \<and> i = fst op \<and> post = more
      \<or> (\<exists>pre'. pre = ?U # pre' \<and> more = pre' @ UndoOperation target i # post)"
    if "?U # more = pre @ UndoOperation target i # post" for more pre i post
    using that by (cases pre) auto
  have finish: ?case
    if tr: "trace (snd ?L) = trace st @ ?U # more"
      and hd: "undo_followed cg t u target (trace st) (fst op) more (fst ?L)"
      and tl: "\<And>pre' i post. more = pre' @ UndoOperation target i # post \<Longrightarrow>
          undo_followed cg t u target (trace st @ ?U # pre') i post (fst ?L)"
    for more
  proof -
    have a: "next_undo target (?U # more) (fst ?L)" by (simp add: next_undo_def)
    have b: "op # ops = [] \<longrightarrow> ?U # more = []" by simp
    have c: "\<forall>pre i post. ?U # more = pre @ UndoOperation target i # post \<longrightarrow>
           undo_followed cg t u target (trace st @ pre) i post (fst ?L)"
    proof (intro allI impI)
      fix pre i post assume "?U # more = pre @ UndoOperation target i # post"
      from split [OF this] show "undo_followed cg t u target (trace st @ pre) i post (fst ?L)"
      proof (elim disjE conjE exE)
        assume "pre = []" "i = fst op" "post = more"
        with hd show ?thesis by simp
      next
        fix pre' assume "pre = ?U # pre'" "more = pre' @ UndoOperation target i # post"
        with tl [of pre' i post] show ?thesis by simp
      qed
    qed
    from tr a b c show ?thesis by (intro exI [of _ "?U # more"] conjI)
  qed
  show ?case
  proof (cases "cg_undo_operation cg (trace st) target (fst op)")
    case (Inl e)
    then have eq: "?L = (Some (convert_undo_error ''undo'' e), st1)"
      by (simp add: st1_def Let_def)
    show ?thesis
    proof (rule finish [of "[]"])
      show "trace (snd ?L) = trace st @ [?U]" unfolding eq by (simp add: st1)
      show "undo_followed cg t u target (trace st) (fst op) [] (fst ?L)"
        unfolding eq by (simp add: undo_followed_def Inl)
    qed simp
  next
    case (Inr ret)
    show ?thesis
    proof (cases "new_lvl2_ids ret = []")
      case True
      then have eq: "?L = rollback_loop cg t u target ops st1"
        using Inr by (simp add: st1_def Let_def)
      from Cons.IH [of st1] obtain rest where
        r1: "trace (snd (rollback_loop cg t u target ops st1)) = trace st1 @ rest"
        and r2: "next_undo target rest (fst (rollback_loop cg t u target ops st1))"
        and r4: "\<forall>pre i post. rest = pre @ UndoOperation target i # post \<longrightarrow>
           undo_followed cg t u target (trace st1 @ pre) i post
             (fst (rollback_loop cg t u target ops st1))"
        by (elim exE conjE)
      show ?thesis
      proof (rule finish [of rest])
        show "trace (snd ?L) = trace st @ ?U # rest" unfolding eq r1 st1 by simp
        show "undo_followed cg t u target (trace st) (fst op) rest (fst ?L)"
          unfolding eq using r2 by (simp add: undo_followed_def Inr True)
        fix pre' i post assume "rest = pre' @ UndoOperation target i # post"
        with r4 show "undo_followed cg t u target (trace st @ ?U # pre') i post (fst ?L)"
          unfolding eq st1 by simp
      qed
    next
      case False
      show ?thesis
      proof (cases "new_root_ids ret")
        case None
        then have eq: "?L = (Some (OtherException ''AttributeError''), st1)"
          using Inr False by (simp add: st1_def Let_def publish_edit_def)
        show ?thesis
        proof (rule finish [of "[]"])
          show "trace (snd ?L) = trace st @ [?U]" unfolding eq by (simp add: st1)
          show "undo_followed cg t u target (trace st) (fst op) [] (fst ?L)"
            unfolding eq by (simp add: undo_followed_def Inr False None)
        qed simp
      next
        case (Some roots)
        let ?P = "Publish t u False ret"
        define st2 where "st2 = record_event ?P st1"
        have st2: "trace st2 = trace st @ [?U, ?P]"
          by (simp add: st2_def record_event_def st1)
        have pe: "publish_edit cg t u ret False st1
            = (publish_response cg (trace st @ [?U]) ?P, st2)"
          by (simp add: publish_edit_def Some Let_def st2_def st1)
        show ?thesis
        proof (cases "publish_response cg (trace st @ [?U]) ?P")
          case (Some e)
          then have eq: "?L = (Some e, st2)"
            using Inr False pe by (simp add: st1_def Let_def)
          show ?thesis
          proof (rule finish [of "[?P]"])
            show "trace (snd ?L) = trace st @ [?U, ?P]" unfolding eq by (simp add: st2)
            show "undo_followed cg t u target (trace st) (fst op) [?P] (fst ?L)"
              unfolding eq
              by (simp add: undo_followed_def Inr False \<open>new_root_ids ret = Some roots\<close> Some)
            fix pre' i post assume "[?P] = pre' @ UndoOperation target i # post"
            then have False by (cases pre') auto
            then show "undo_followed cg t u target (trace st @ ?U # pre') i post (fst ?L)" ..
          qed
        next
          case None
          then have eq: "?L = rollback_loop cg t u target ops st2"
            using Inr False pe by (simp add: st1_def Let_def)
          from Cons.IH [of st2] obtain rest where
            r1: "trace (snd (rollback_loop cg t u target ops st2)) = trace st2 @ rest"
            and r2: "next_undo target rest (fst (rollback_loop cg t u target ops st2))"
            and r4: "\<forall>pre i post. rest = pre @ UndoOperation target i # post \<longrightarrow>
               undo_followed cg t u target (trace st2 @ pre) i post
                 (fst (rollback_loop cg t u target ops st2))"
            by (elim exE conjE)
          show ?thesis
          proof (rule finish [of "?P # rest"])
            show "trace (snd ?L) = trace st @ ?U # ?P # rest" unfolding eq r1 st2 by simp
            show "undo_followed cg t u target (trace st) (fst op) (?P # rest) (fst ?L)"
              unfolding eq using r2
              by (simp add: undo_followed_def Inr False \<open>new_root_ids ret = Some roots\<close> None)
            fix pre' i post assume d: "?P # rest = pre' @ UndoOperation target i # post"
            then obtain pre'' where p: "pre' = ?P # pre''"
              and r: "rest = pre'' @ UndoOperation target i # post"
              by (cases pre') auto
            from r4 r have "undo_followed cg t u target (trace st2 @ pre'') i post
                 (fst (rollback_loop cg t u target ops st2))" by blast
            then show "undo_followed cg t u target (trace st @ ?U # pre') i post (fst ?L)"
              unfolding eq st2 p by simp
          qed
        qed
      qed
    qed
  qed
qed

lemma undo_calls_nonempty:
  "undo_calls (UndoOperation u i # post) \<noteq> []"
  by (simp add: undo_calls_def)

lemma parse_timestamp_default: "parse_timestamp arg_name None = Inr 0"
  by (simp add: parse_timestamp_def fromtimestamp_def round_half_even_def)

lemmas rollback_defs = handle_rollback_def all_user_operations_def parse_timestamp_default
  sort_reverse_def undo_calls_def rollback_get_cg_def example_log_def already_undone_def

section \<open>The handlers of \<open>common.py\<close>: claims\<close>

text \<open>
  C10. A merge, split, undo or redo request succeeds, returning the result \<open>ret\<close>,
  exactly when the edit that the handler runs on the chunked graph returns \<open>ret\<close> (for
  a merge or split with \<open>new_root_ids\<close> that is not \<open>None\<close>) and the message for it, if
  one is due, can be sent. The request then adds to the trace the call of the edit and,
  exactly when \<open>ret\<close> has at least one new level-2 identifier, the one message
  \<open>Publish\<close> with the table, the requesting user, the priority flag and \<open>ret\<close>; with
  empty \<open>new_lvl2_ids\<close> the result is returned and nothing is published.
\<close>

theorem publish_iff_new_lvl2_ids:
  "(handle_merge get_cg table_id req st0 = (Inr ret, st')
    \<longleftrightarrow> (\<exists>cg p u coords atomic_edge st3.
          merge_setup get_cg table_id req st0 = (Inr (cg, p, u, coords, atomic_edge), st3)
        \<and> cg_add_edges cg (trace st3) u atomic_edge (take 1 coords) (drop 1 coords) = Inr ret
        \<and> new_root_ids ret \<noteq> None
        \<and> publish_accepted cg (trace st3 @ [AddEdges u atomic_edge]) table_id req ret
        \<and> st' = st3\<lparr>trace := trace st3
                        @ edit_events (AddEdges u atomic_edge) table_id req ret\<rparr>))
   \<and> (handle_split get_cg table_id req st0 = (Inr ret, st')
    \<longleftrightarrow> (\<exists>cg p m u sources sinks source_coords sink_coords st3.
          split_setup get_cg table_id req st0
            = (Inr (cg, p, m, u, sources, sinks, source_coords, sink_coords), st3)
        \<and> cg_remove_edges cg (trace st3) u sources sinks source_coords sink_coords m = Inr ret
        \<and> new_root_ids ret \<noteq> None
        \<and> publish_accepted cg (trace st3 @ [RemoveEdges u sources sinks m]) table_id req ret
        \<and> st' = st3\<lparr>trace := trace st3
                        @ edit_events (RemoveEdges u sources sinks m) table_id req ret\<rparr>))
   \<and> (handle_undo get_cg table_id req st0 = (Inr ret, st')
    \<longleftrightarrow> table_id \<notin> set deny_list
        \<and> (\<exists>opid cg.
              body_operation_id req = Some opid
            \<and> get_cg table_id = Inr cg
            \<and> cg_undo cg (trace st0) (auth_user_id req) opid = Inr ret
            \<and> publish_accepted cg (trace st0 @ [Undo (auth_user_id req) opid]) table_id req ret
            \<and> st' = st0\<lparr>cur_table_id := Some table_id, cur_user_id := Some (auth_user_id req),
                          trace := trace st0
                            @ edit_events (Undo (auth_user_id req) opid) table_id req ret\<rparr>))
   \<and> (handle_redo get_cg table_id req st0 = (Inr ret, st')
    \<longleftrightarrow> table_id \<notin> set deny_list
        \<and> (\<exists>opid cg.
              body_operation_id req = Some opid
            \<and> get_cg table_id = Inr cg
            \<and> cg_redo cg (trace st0) (auth_user_id req) opid = Inr ret
            \<and> publish_accepted cg (trace st0 @ [Redo (auth_user_id req) opid]) table_id req ret
            \<and> st' = st0\<lparr>cur_table_id := Some table_id, cur_user_id := Some (auth_user_id req),
                          trace := trace st0
                            @ edit_events (Redo (auth_user_id req) opid) table_id req ret\<rparr>))"
  by (intro conjI handle_merge_iff handle_split_iff handle_undo_iff handle_redo_iff)

theorem publish_iff_new_lvl2_ids_witness:
  "handle_merge some_roots_get_cg ''minnie'' example_request initial_state
     = (Inr some_roots_result, after_merge some_roots_result)
   \<and> handle_merge empty_roots_get_cg ''minnie'' example_request initial_state
     = (Inr empty_roots_result, after_merge empty_roots_result)
   \<and> handle_split some_roots_get_cg ''minnie'' example_request initial_state
     = (Inr some_roots_result, after_split some_roots_result)
   \<and> handle_split empty_roots_get_cg ''minnie'' example_request initial_state
     = (Inr empty_roots_result, after_split empty_roots_result)
   \<and> handle_undo some_roots_get_cg ''minnie'' example_request initial_state
     = (Inr some_roots_result, after_edit (Undo ''alice'' 7) some_roots_result)
   \<and> handle_undo empty_roots_get_cg ''minnie'' example_request initial_state
     = (Inr empty_roots_result, after_edit (Undo ''alice'' 7) empty_roots_result)
   \<and> handle_redo some_roots_get_cg ''minnie'' example_request initial_state
     = (Inr some_roots_result, after_edit (Redo ''alice'' 7) some_roots_result)
   \<and> handle_redo empty_roots_get_cg ''minnie'' example_request initial_state
     = (Inr empty_roots_result, after_edit (Redo ''alice'' 7) empty_roots_result)
   \<and> published (trace (after_merge some_roots_result))
     = [Publish ''minnie'' ''alice'' True some_roots_result]
   \<and> published (trace (after_merge empty_roots_result)) = []
   \<and> published (trace (after_split some_roots_result))
     = [Publish ''minnie'' ''alice'' True some_roots_result]
   \<and> published (trace (after_split empty_roots_result)) = []
   \<and> published (trace (after_edit (Undo ''alice'' 7) some_roots_result))
     = [Publish ''minnie'' ''alice'' True some_roots_result]
   \<and> published (trace (after_edit (Undo ''alice'' 7) empty_roots_result)) = []
   \<and> published (trace (after_edit (Redo ''alice'' 7) some_roots_result))
     = [Publish ''minnie'' ''alice'' True some_roots_result]
   \<and> published (trace (after_edit (Redo ''alice'' 7) empty_roots_result)) = []"
proof -
  have s: "new_root_ids some_roots_result \<noteq> None" by (simp add: some_roots_result_def)
  have e: "new_root_ids empty_roots_result \<noteq> None" by (simp add: empty_roots_result_def)
  note m = publish_iff_new_lvl2_ids [THEN conjunct1, THEN iffD2]
  note sp = publish_iff_new_lvl2_ids [THEN conjunct2, THEN conjunct1, THEN iffD2]
  note us = publish_iff_new_lvl2_ids [where get_cg = "example_get_cg (Inr some_roots_result) []"
      and table_id = "''minnie''", THEN conjunct2, THEN conjunct2, THEN conjunct1, THEN iffD2]
  note ue = publish_iff_new_lvl2_ids [where get_cg = "example_get_cg (Inr empty_roots_result) []"
      and table_id = "''minnie''", THEN conjunct2, THEN conjunct2, THEN conjunct1, THEN iffD2]
  note rs = publish_iff_new_lvl2_ids [where get_cg = "example_get_cg (Inr some_roots_result) []"
      and table_id = "''minnie''", THEN conjunct2, THEN conjunct2, THEN conjunct2, THEN iffD2]
  note re = publish_iff_new_lvl2_ids [where get_cg = "example_get_cg (Inr empty_roots_result) []"
      and table_id = "''minnie''", THEN conjunct2, THEN conjunct2, THEN conjunct2, THEN iffD2]
  have 1: "handle_merge some_roots_get_cg ''minnie'' example_request initial_state
     = (Inr some_roots_result, after_merge some_roots_result)"
    unfolding some_roots_get_cg_def by (rule m [OF merge_example_returns [OF s]])
  have 2: "handle_merge empty_roots_get_cg ''minnie'' example_request initial_state
     = (Inr empty_roots_result, after_merge empty_roots_result)"
    unfolding empty_roots_get_cg_def by (rule m [OF merge_example_returns [OF e]])
  have 3: "handle_split some_roots_get_cg ''minnie'' example_request initial_state
     = (Inr some_roots_result, after_split some_roots_result)"
    unfolding some_roots_get_cg_def by (rule sp [OF split_example_returns [OF s]])
  have 4: "handle_split empty_roots_get_cg ''minnie'' example_request initial_state
     = (Inr empty_roots_result, after_split empty_roots_result)"
    unfolding empty_roots_get_cg_def by (rule sp [OF split_example_returns [OF e]])
  have 5: "handle_undo some_roots_get_cg ''minnie'' example_request initial_state
     = (Inr some_roots_result, after_edit (Undo ''alice'' 7) some_roots_result)"
    unfolding some_roots_get_cg_def by (rule us [OF undo_example_returns [OF s]])
  have 6: "handle_undo empty_roots_get_cg ''minnie'' example_request initial_state
     = (Inr empty_roots_result, after_edit (Undo ''alice'' 7) empty_roots_result)"
    unfolding empty_roots_get_cg_def by (rule ue [OF undo_example_returns [OF e]])
  have 7: "handle_redo some_roots_get_cg ''minnie'' example_request initial_state
     = (Inr some_roots_result, after_edit (Redo ''alice'' 7) some_roots_result)"
    unfolding some_roots_get_cg_def by (rule rs [OF redo_example_returns [OF s]])
  have 8: "handle_redo empty_roots_get_cg ''minnie'' example_request initial_state
     = (Inr empty_roots_result, after_edit (Redo ''alice'' 7) empty_roots_result)"
    unfolding empty_roots_get_cg_def by (rule re [OF redo_example_returns [OF e]])
  have p: "published (trace (after_merge some_roots_result))
     = [Publish ''minnie'' ''alice'' True some_roots_result]"
    "published (trace (after_merge empty_roots_result)) = []"
    "published (trace (after_split some_roots_result))
     = [Publish ''minnie'' ''alice'' True some_roots_result]"
    "published (trace (after_split empty_roots_result)) = []"
    "published (trace (after_edit (Undo ''alice'' 7) some_roots_result))
     = [Publish ''minnie'' ''alice'' True some_roots_result]"
    "published (trace (after_edit (Undo ''alice'' 7) empty_roots_result)) = []"
    "published (trace (after_edit (Redo ''alice'' 7) some_roots_result))
     = [Publish ''minnie'' ''alice'' True some_roots_result]"
    "published (trace (after_edit (Redo ''alice'' 7) empty_roots_result)) = []"
    by (simp_all add: example_traces published_def)
  show ?thesis
    by (rule conjI [OF 1 conjI [OF 2 conjI [OF 3 conjI [OF 4 conjI [OF 5 conjI [OF 6
        conjI [OF 7 conjI [OF 8 conjI [OF p(1) conjI [OF p(2) conjI [OF p(3) conjI [OF p(4)
        conjI [OF p(5) conjI [OF p(6) conjI [OF p(7) p(8)]]]]]]]]]]]]]]])
qed

text \<open>
  C6, as the code has it. When the edit that a merge or split request runs returns a
  result whose \<open>new_root_ids\<close> is \<open>None\<close>, the handler raises \<open>InternalServerError\<close>
  and does not return the result.
\<close>

theorem none_roots_internal_error:
  "(merge_setup get_cg table_id req st0 = (Inr (cg, p, u, coords, ae), st3)
      \<and> cg_add_edges cg (trace st3) u ae (take 1 coords) (drop 1 coords) = Inr ret
      \<and> new_root_ids ret = None
    \<longrightarrow> fst (handle_merge get_cg table_id req st0)
          = Inl (InternalServerError ''Could not merge selected supervoxel.''))
   \<and> (split_setup get_cg table_id req st0
          = (Inr (cg', p', m', u', sources, sinks, source_coords, sink_coords), st3')
      \<and> cg_remove_edges cg' (trace st3') u' sources sinks source_coords sink_coords m' = Inr ret'
      \<and> new_root_ids ret' = None
    \<longrightarrow> fst (handle_split get_cg table_id req st0)
          = Inl (InternalServerError ''Could not split selected segment groups.''))"
  by (simp add: handle_merge_def handle_split_def Let_def)

theorem none_roots_internal_error_witness:
  "new_root_ids none_roots_result = None
   \<and> fst (handle_merge none_roots_get_cg ''minnie'' example_request initial_state)
     = Inl (InternalServerError ''Could not merge selected supervoxel.'')
   \<and> fst (handle_split none_roots_get_cg ''minnie'' example_request initial_state)
     = Inl (InternalServerError ''Could not split selected segment groups.'')"
proof -
  have n: "new_root_ids none_roots_result = None"
    by (simp add: none_roots_result_def)
  have m: "merge_setup none_roots_get_cg ''minnie'' example_request initial_state
      = (Inr (example_backend (Inr none_roots_result) [], True, ''alice'', merge_coords, [10, 11]),
         after_lookup)"
    unfolding none_roots_get_cg_def by (rule merge_setup_example)
  have me: "cg_add_edges (example_backend (Inr none_roots_result) []) (trace after_lookup)
      ''alice'' [10, 11] (take 1 merge_coords) (drop 1 merge_coords) = Inr none_roots_result"
    by (simp add: example_backend_def)
  have s: "split_setup none_roots_get_cg ''minnie'' example_request initial_state
      = (Inr (example_backend (Inr none_roots_result) [], True, True, ''alice'', [10], [11],
              [[0, 0, 0]], [[4, 4, 4]]), after_lookup)"
    unfolding none_roots_get_cg_def by (rule split_setup_example)
  have se: "cg_remove_edges (example_backend (Inr none_roots_result) []) (trace after_lookup)
      ''alice'' [10] [11] [[0, 0, 0]] [[4, 4, 4]] True = Inr none_roots_result"
    by (simp add: example_backend_def)
  note c1 = none_roots_internal_error [THEN conjunct1, THEN mp, OF conjI [OF m conjI [OF me n]]]
  note c2 = none_roots_internal_error [THEN conjunct2, THEN mp, OF conjI [OF s conjI [OF se n]]]
  from n c1 c2 show ?thesis by (intro conjI)
qed

text \<open>
  C6 as stated fails: a result whose \<open>new_root_ids\<close> is an empty array (not \<open>None\<close>) is
  returned by both handlers as a success.
\<close>

theorem empty_roots_returned_counterexample:
  "new_root_ids empty_roots_result = Some []
   \<and> fst (handle_merge empty_roots_get_cg ''minnie'' example_request initial_state)
     = Inr empty_roots_result
   \<and> fst (handle_split empty_roots_get_cg ''minnie'' example_request initial_state)
     = Inr empty_roots_result"
  by (simp add: example_defs handler_defs)

text \<open>
  C7, as the code has it. When the edit of a merge or split request raises
  \<open>LockingError\<close>, the handler raises \<open>InternalServerError\<close> with its own message; when
  the edit raises \<open>PreconditionError\<close>, the handler raises \<open>BadRequest\<close> with the
  message of that error.
\<close>

theorem edit_errors_converted:
  "(merge_setup get_cg table_id req st0 = (Inr (cg, p, u, coords, ae), st3)
      \<and> cg_add_edges cg (trace st3) u ae (take 1 coords) (drop 1 coords) = Inl (LockingError m)
    \<longrightarrow> fst (handle_merge get_cg table_id req st0)
          = Inl (InternalServerError ''Could not acquire root lock for merge operation.''))
   \<and> (merge_setup get_cg table_id req st0 = (Inr (cg, p, u, coords, ae), st3)
      \<and> cg_add_edges cg (trace st3) u ae (take 1 coords) (drop 1 coords)
          = Inl (PreconditionError m)
    \<longrightarrow> fst (handle_merge get_cg table_id req st0) = Inl (BadRequest m))
   \<and> (split_setup get_cg table_id req st0
          = (Inr (cg', p', m', u', sources, sinks, source_coords, sink_coords), st3')
      \<and> cg_remove_edges cg' (trace st3') u' sources sinks source_coords sink_coords m'
          = Inl (LockingError m)
    \<longrightarrow> fst (handle_split get_cg table_id req st0)
          = Inl (InternalServerError ''Could not acquire root lock for split operation.''))
   \<and> (split_setup get_cg table_id req st0
          = (Inr (cg', p', m', u', sources, sinks, source_coords, sink_coords), st3')
      \<and> cg_remove_edges cg' (trace st3') u' sources sinks source_coords sink_coords m'
          = Inl (PreconditionError m)
    \<longrightarrow> fst (handle_split get_cg table_id req st0) = Inl (BadRequest m))"
  by (simp add: handle_merge_def handle_split_def Let_def)

theorem edit_errors_converted_witness:
  "fst (handle_merge locking_get_cg ''minnie'' example_request initial_state)
     = Inl (InternalServerError ''Could not acquire root lock for merge operation.'')
   \<and> fst (handle_merge precondition_get_cg ''minnie'' example_request initial_state)
     = Inl (BadRequest ''illegal split'')
   \<and> fst (handle_split locking_get_cg ''minnie'' example_request initial_state)
     = Inl (InternalServerError ''Could not acquire root lock for split operation.'')
   \<and> fst (handle_split precondition_get_cg ''minnie'' example_request initial_state)
     = Inl (BadRequest ''illegal split'')"
proof -
  have ml: "merge_setup locking_get_cg ''minnie'' example_request initial_state
      = (Inr (example_backend (Inl (LockingError ''busy'')) [], True, ''alice'', merge_coords,
              [10, 11]), after_lookup)"
    unfolding locking_get_cg_def by (rule merge_setup_example)
  have mle: "cg_add_edges (example_backend (Inl (LockingError ''busy'')) []) (trace after_lookup)
      ''alice'' [10, 11] (take 1 merge_coords) (drop 1 merge_coords) = Inl (LockingError ''busy'')"
    by (simp add: example_backend_def)
  have mp': "merge_setup precondition_get_cg ''minnie'' example_request initial_state
      = (Inr (example_backend (Inl (PreconditionError ''illegal split'')) [], True, ''alice'',
              merge_coords, [10, 11]), after_lookup)"
    unfolding precondition_get_cg_def by (rule merge_setup_example)
  have mpe: "cg_add_edges (example_backend (Inl (PreconditionError ''illegal split'')) [])
      (trace after_lookup) ''alice'' [10, 11] (take 1 merge_coords) (drop 1 merge_coords)
      = Inl (PreconditionError ''illegal split'')"
    by (simp add: example_backend_def)
  have sl: "split_setup locking_get_cg ''minnie'' example_request initial_state
      = (Inr (example_backend (Inl (LockingError ''busy'')) [], True, True, ''alice'', [10], [11],
              [[0, 0, 0]], [[4, 4, 4]]), after_lookup)"
    unfolding locking_get_cg_def by (rule split_setup_example)
  have sle: "cg_remove_edges (example_backend (Inl (LockingError ''busy'')) [])
      (trace after_lookup) ''alice'' [10] [11] [[0, 0, 0]] [[4, 4, 4]] True
      = Inl (LockingError ''busy'')"
    by (simp add: example_backend_def)
  have sp: "split_setup precondition_get_cg ''minnie'' example_request initial_state
      = (Inr (example_backend (Inl (PreconditionError ''illegal split'')) [], True, True,
              ''alice'', [10], [11], [[0, 0, 0]], [[4, 4, 4]]), after_lookup)"
    unfolding precondition_get_cg_def by (rule split_setup_example)
  have spe: "cg_remove_edges (example_backend (Inl (PreconditionError ''illegal split'')) [])
      (trace after_lookup) ''alice'' [10] [11] [[0, 0, 0]] [[4, 4, 4]] True
      = Inl (PreconditionError ''illegal split'')"
    by (simp add: example_backend_def)
  note c1 = edit_errors_converted [THEN conjunct1, THEN mp, OF conjI [OF ml mle]]
  note c2 = edit_errors_converted [THEN conjunct2, THEN conjunct1, THEN mp, OF conjI [OF mp' mpe]]
  note c3 = edit_errors_converted [THEN conjunct2, THEN conjunct2, THEN conjunct1, THEN mp,
      OF conjI [OF sl sle]]
  note c4 = edit_errors_converted [THEN conjunct2, THEN conjunct2, THEN conjunct2, THEN mp,
      OF conjI [OF sp spe]]
  from c1 c2 c3 c4 show ?thesis by (intro conjI)
qed

text \<open>
  C7 as stated fails: the error that a merge request ends with when the edit raises
  \<open>LockingError\<close> is \<open>InternalServerError\<close>, a server error and not a client error.
\<close>

theorem locking_not_client_error_counterexample:
  "cg_add_edges (example_backend (Inl (LockingError ''busy'')) []) (trace after_lookup)
      ''alice'' [10, 11] (take 1 merge_coords) (drop 1 merge_coords) = Inl (LockingError ''busy'')
   \<and> fst (handle_merge locking_get_cg ''minnie'' example_request initial_state)
     = Inl (InternalServerError ''Could not acquire root lock for merge operation.'')
   \<and> \<not> is_client_error (InternalServerError ''Could not acquire root lock for merge operation.'')"
  by (simp add: example_defs handler_defs is_client_error_def)

text \<open>
  C8, as the code has it. For a table on the deny list, the undo, redo and rollback
  handlers raise \<open>InternalServerError\<close> saying that the operation is not supported, and
  leave the state as it was: nothing is assigned, no collaborator is called, and the
  outcome does not depend on the graph.
\<close>

theorem deny_list_rejects:
  "table_id \<in> set deny_list \<longrightarrow>
     handle_undo get_cg table_id req st0
       = (Inl (InternalServerError ''Undo not supported for this chunkedgraph table.''), st0)
   \<and> handle_redo get_cg table_id req st0
       = (Inl (InternalServerError ''Redo not supported for this chunkedgraph table.''), st0)
   \<and> handle_rollback get_cg table_id req st0
       = (Inl (InternalServerError ''Rollback not supported for this chunkedgraph table.''), st0)"
  by (simp add: handle_undo_def handle_redo_def handle_rollback_def)

theorem deny_list_rejects_witness:
  "''fly_v31'' \<in> set deny_list
   \<and> handle_undo some_roots_get_cg ''fly_v31'' example_request initial_state
       = (Inl (InternalServerError ''Undo not supported for this chunkedgraph table.''),
          initial_state)
   \<and> handle_redo some_roots_get_cg ''fly_v31'' example_request initial_state
       = (Inl (InternalServerError ''Redo not supported for this chunkedgraph table.''),
          initial_state)
   \<and> handle_rollback some_roots_get_cg ''fly_v31'' example_request initial_state
       = (Inl (InternalServerError ''Rollback not supported for this chunkedgraph table.''),
          initial_state)"
proof -
  have h: "''fly_v31'' \<in> set deny_list" by (simp add: deny_list_def)
  from h deny_list_rejects [THEN mp, OF h] show ?thesis by (intro conjI) blast+
qed

text \<open>
  C8 as stated fails: on \<open>fly_v26\<close> the error of undo and of rollback is
  \<open>InternalServerError\<close>, not \<open>BadRequest\<close>.
\<close>

theorem deny_list_not_bad_request_counterexample:
  "''fly_v26'' \<in> set deny_list
   \<and> fst (handle_undo some_roots_get_cg ''fly_v26'' example_request initial_state)
       = Inl (InternalServerError ''Undo not supported for this chunkedgraph table.'')
   \<and> \<not> is_bad_request (InternalServerError ''Undo not supported for this chunkedgraph table.'')
   \<and> fst (handle_rollback some_roots_get_cg ''fly_v26'' example_request initial_state)
       = Inl (InternalServerError ''Rollback not supported for this chunkedgraph table.'')
   \<and> \<not> is_bad_request (InternalServerError ''Rollback not supported for this chunkedgraph table.'')"
  by (simp add: deny_list_def handle_undo_def handle_rollback_def)


text \<open>
  C9, as the code has it. For a rollback request on a table that is not on the deny
  list, with a \<open>user_id\<close> argument, a valid \<open>start_time\<close> and a known table: the handler
  reads the log since the start time, takes the operations of the target user, each
  once, in descending order of their timestamps, and calls \<open>undo_operation\<close> in the name
  of the target user on the first n of them in that order, skipping none. Every call
  is followed as \<open>undo_followed\<close> says: the loop goes on to the next operation after an
  undo that returned (and whose message, if one was due, was sent), and it ends, with
  the handler raising, at the first undo that raises or whose message cannot be sent.
  So n is the number of all operations when the handler returns, and at least 1 when
  it raises.
\<close>

theorem rollback_undoes_all_descending:
  assumes deny: "table_id \<notin> set deny_list"
    and target: "arg_user_id req = Some target"
    and start: "parse_timestamp ''start_time'' (arg_start_time req) = Inr start"
    and cg: "get_cg table_id = Inr cg"
  shows "\<exists>ops n rest.
      distinct ops
    \<and> set ops = operations_of (cg_read_log_rows cg (trace st0) start) target
    \<and> sorted (rev (map (timestamp_of (cg_read_log_rows cg (trace st0) start)) ops))
    \<and> n \<le> length ops
    \<and> trace (snd (handle_rollback get_cg table_id req st0))
        = trace st0 @ ReadLogRows start # rest
    \<and> undo_calls rest = map (Pair target) (take n ops)
    \<and> (raised (fst (handle_rollback get_cg table_id req st0)) = None \<longrightarrow> n = length ops)
    \<and> (raised (fst (handle_rollback get_cg table_id req st0)) \<noteq> None \<longrightarrow> 0 < n)
    \<and> next_undo target rest (raised (fst (handle_rollback get_cg table_id req st0)))
    \<and> (\<forall>pre i post. rest = pre @ UndoOperation target i # post \<longrightarrow>
          undo_followed cg table_id (auth_user_id req) target
            (trace st0 @ ReadLogRows start # pre) i post
            (raised (fst (handle_rollback get_cg table_id req st0))))"
proof -
  define st1 where
    "st1 = st0\<lparr>cur_table_id := Some table_id, cur_user_id := Some (auth_user_id req)\<rparr>"
  define rows where "rows = cg_read_log_rows cg (trace st0) start"
  have tr1: "trace st1 = trace st0" by (simp add: st1_def)
  from all_user_operations_Inr [where get_cg = get_cg and table_id = table_id and ?st1.0 = st1,
      OF target start cg] obtain ids st2 where
    auo: "all_user_operations get_cg table_id req st1
            = (Inr (ids, map (timestamp_of rows) ids), st2)"
    and tr2: "trace st2 = trace st0 @ [ReadLogRows start]"
    and d: "distinct ids"
    and s: "set ids = operations_of rows target"
    unfolding tr1 rows_def by (elim exE conjE)
  define operations where "operations = sort_reverse (zip ids (map (timestamp_of rows) ids))"
  define ops where "ops = map fst operations"
  define loop where
    "loop = rollback_loop cg table_id (auth_user_id req) target operations st2"
  define R where "R = handle_rollback get_cg table_id req st0"
  have hr: "R = (case loop of
           (Some e, st3) \<Rightarrow> (Inl e, st3)
         | (None, st3) \<Rightarrow> (Inr (ids, map (timestamp_of rows) ids), st3))"
    using deny target cg auo
    by (simp add: R_def handle_rollback_def Let_def st1_def operations_def loop_def)
  have snd_hr: "snd R = snd loop"
    unfolding hr by (cases loop; cases "fst loop") auto
  have fst_hr: "raised (fst R) = fst loop"
    unfolding hr by (cases loop; cases "fst loop") (auto simp: raised_def)
  from rollback_loop_calls [of operations cg table_id "auth_user_id req" target st2]
  obtain n where n: "n \<le> length operations"
    and calls: "undo_calls (trace (snd loop))
       = undo_calls (trace st2) @ map (\<lambda>op. (target, fst op)) (take n operations)"
    and full: "fst loop = None \<longrightarrow> n = length operations"
    unfolding loop_def by (elim exE conjE)
  from rollback_loop_run [of cg table_id "auth_user_id req" target operations st2]
  obtain rest where rest: "trace (snd loop) = trace st2 @ rest"
    and nxt: "next_undo target rest (fst loop)"
    and run: "\<forall>pre i post. rest = pre @ UndoOperation target i # post \<longrightarrow>
           undo_followed cg table_id (auth_user_id req) target (trace st2 @ pre) i post (fst loop)"
    unfolding loop_def by (elim exE conjE)
  have 1: "distinct ops"
    unfolding ops_def operations_def by (rule sort_reverse_props(1) [OF d])
  have 2: "set ops = operations_of rows target"
    unfolding ops_def operations_def using sort_reverse_props(2) [OF d] s by simp
  have 3: "sorted (rev (map (timestamp_of rows) ops))"
    unfolding ops_def operations_def by (rule sort_reverse_props(3) [OF d])
  have 4: "n \<le> length ops" using n by (simp add: ops_def)
  have 5: "trace (snd R) = trace st0 @ ReadLogRows start # rest"
    unfolding snd_hr rest tr2 by simp
  have 6: "undo_calls rest = map (Pair target) (take n ops)"
    using calls unfolding rest ops_def
    by (simp add: undo_calls_append take_map comp_def)
  have 7: "raised (fst R) = None \<longrightarrow> n = length ops"
    unfolding fst_hr using full by (simp add: ops_def)
  have 8: "raised (fst R) \<noteq> None \<longrightarrow> 0 < n"
  proof
    assume "raised (fst R) \<noteq> None"
    with nxt have "rest \<noteq> []" unfolding fst_hr by (auto simp: next_undo_def)
    with nxt obtain j post where "rest = UndoOperation target j # post"
      by (cases rest) (auto simp: next_undo_def split: event.splits)
    with 6 undo_calls_nonempty [of target j post] show "0 < n" by (cases n) auto
  qed
  have 9: "next_undo target rest (raised (fst R))" unfolding fst_hr by (rule nxt)
  have 10: "\<forall>pre i post. rest = pre @ UndoOperation target i # post \<longrightarrow>
          undo_followed cg table_id (auth_user_id req) target
            (trace st0 @ ReadLogRows start # pre) i post (raised (fst R))"
    using run unfolding fst_hr tr2 by simp
  from 1 2 3 4 5 6 7 8 9 10 show ?thesis unfolding rows_def R_def by (intro exI conjI)
qed

theorem rollback_undoes_all_descending_witness:
  "''minnie'' \<notin> set deny_list
   \<and> arg_user_id example_request = Some ''bob''
   \<and> parse_timestamp ''start_time'' (arg_start_time example_request) = Inr 0
   \<and> rollback_get_cg ''minnie'' = Inr (example_backend (Inr some_roots_result) example_log)
   \<and> failing_rollback_get_cg ''minnie''
       = Inr (example_backend (Inl (LockingError ''busy'')) example_log)
   \<and> unpublished_rollback_get_cg ''minnie'' = Inr unpublished_backend
   \<and> (\<exists>ops n rest.
        distinct ops
      \<and> set ops = operations_of
          (cg_read_log_rows (example_backend (Inr some_roots_result) example_log)
             (trace initial_state) 0) ''bob''
      \<and> sorted (rev (map (timestamp_of
          (cg_read_log_rows (example_backend (Inr some_roots_result) example_log)
             (trace initial_state) 0)) ops))
      \<and> n \<le> length ops
      \<and> trace (snd (handle_rollback rollback_get_cg ''minnie'' example_request initial_state))
          = trace initial_state @ ReadLogRows 0 # rest
      \<and> undo_calls rest = map (Pair ''bob'') (take n ops)
      \<and> (raised (fst (handle_rollback rollback_get_cg ''minnie'' example_request
              initial_state)) = None \<longrightarrow> n = length ops)
      \<and> (raised (fst (handle_rollback rollback_get_cg ''minnie'' example_request
              initial_state)) \<noteq> None \<longrightarrow> 0 < n)
      \<and> next_undo ''bob'' rest
          (raised (fst (handle_rollback rollback_get_cg ''minnie'' example_request
              initial_state)))
      \<and> (\<forall>pre i post. rest = pre @ UndoOperation ''bob'' i # post \<longrightarrow>
            undo_followed (example_backend (Inr some_roots_result) example_log) ''minnie''
              (auth_user_id example_request) ''bob''
              (trace initial_state @ ReadLogRows 0 # pre) i post
              (raised (fst (handle_rollback rollback_get_cg ''minnie'' example_request
                 initial_state)))))
   \<and> (\<exists>ops n rest.
        distinct ops
      \<and> set ops = operations_of
          (cg_read_log_rows (example_backend (Inl (LockingError ''busy'')) example_log)
             (trace initial_state) 0) ''bob''
      \<and> sorted (rev (map (timestamp_of
          (cg_read_log_rows (example_backend (Inl (LockingError ''busy'')) example_log)
             (trace initial_state) 0)) ops))
      \<and> n \<le> length ops
      \<and> trace (snd (handle_rollback failing_rollback_get_cg ''minnie'' example_request
            initial_state))
          = trace initial_state @ ReadLogRows 0 # rest
      \<and> undo_calls rest = map (Pair ''bob'') (take n ops)
      \<and> (raised (fst (handle_rollback failing_rollback_get_cg ''minnie'' example_request
              initial_state)) = None \<longrightarrow> n = length ops)
      \<and> (raised (fst (handle_rollback failing_rollback_get_cg ''minnie'' example_request
              initial_state)) \<noteq> None \<longrightarrow> 0 < n)
      \<and> next_undo ''bob'' rest
          (raised (fst (handle_rollback failing_rollback_get_cg ''minnie'' example_request
              initial_state)))
      \<and> (\<forall>pre i post. rest = pre @ UndoOperation ''bob'' i # post \<longrightarrow>
            undo_followed (example_backend (Inl (LockingError ''busy'')) example_log) ''minnie''
              (auth_user_id example_request) ''bob''
              (trace initial_state @ ReadLogRows 0 # pre) i post
              (raised (fst (handle_rollback failing_rollback_get_cg ''minnie'' example_request
                 initial_state)))))
   \<and> (\<exists>ops n rest.
        distinct ops
      \<and> set ops = operations_of
          (cg_read_log_rows unpublished_backend
             (trace initial_state) 0) ''bob''
      \<and> sorted (rev (map (timestamp_of
          (cg_read_log_rows unpublished_backend
             (trace initial_state) 0)) ops))
      \<and> n \<le> length ops
      \<and> trace (snd (handle_rollback unpublished_rollback_get_cg ''minnie'' example_request
            initial_state))
          = trace initial_state @ ReadLogRows 0 # rest
      \<and> undo_calls rest = map (Pair ''bob'') (take n ops)
      \<and> (raised (fst (handle_rollback unpublished_rollback_get_cg ''minnie'' example_request
              initial_state)) = None \<longrightarrow> n = length ops)
      \<and> (raised (fst (handle_rollback unpublished_rollback_get_cg ''minnie'' example_request
              initial_state)) \<noteq> None \<longrightarrow> 0 < n)
      \<and> next_undo ''bob'' rest
          (raised (fst (handle_rollback unpublished_rollback_get_cg ''minnie'' example_request
              initial_state)))
      \<and> (\<forall>pre i post. rest = pre @ UndoOperation ''bob'' i # post \<longrightarrow>
            undo_followed unpublished_backend ''minnie''
              (auth_user_id example_request) ''bob''
              (trace initial_state @ ReadLogRows 0 # pre) i post
              (raised (fst (handle_rollback unpublished_rollback_get_cg ''minnie'' example_request
                 initial_state)))))
   \<and> handle_rollback rollback_get_cg ''minnie'' example_request initial_state
       = (Inr ([3, 5], [10, 30]),
          \<lparr>cur_table_id = Some ''minnie'', cur_user_id = Some ''alice'',
           trace = [ReadLogRows 0,
                    UndoOperation ''bob'' 5, Publish ''minnie'' ''alice'' False some_roots_result,
                    UndoOperation ''bob'' 3, Publish ''minnie'' ''alice'' False some_roots_result]\<rparr>)
   \<and> handle_rollback failing_rollback_get_cg ''minnie'' example_request initial_state
       = (Inl (InternalServerError ''Could not acquire root lock for undo operation.''),
          \<lparr>cur_table_id = Some ''minnie'', cur_user_id = Some ''alice'',
           trace = [ReadLogRows 0, UndoOperation ''bob'' 5]\<rparr>)
   \<and> handle_rollback unpublished_rollback_get_cg ''minnie'' example_request initial_state
       = (Inl (OtherException ''ConnectionError''),
          \<lparr>cur_table_id = Some ''minnie'', cur_user_id = Some ''alice'',
           trace = [ReadLogRows 0, UndoOperation ''bob'' 5,
                    Publish ''minnie'' ''alice'' False some_roots_result]\<rparr>)"
proof -
  have h1: "''minnie'' \<notin> set deny_list" by (simp add: deny_list_def)
  have h2: "arg_user_id example_request = Some ''bob''" by (simp add: example_request_def)
  have h3: "parse_timestamp ''start_time'' (arg_start_time example_request) = Inr 0"
    by (simp add: example_request_def parse_timestamp_default)
  have h4: "rollback_get_cg ''minnie'' = Inr (example_backend (Inr some_roots_result) example_log)"
    by (simp add: rollback_get_cg_def example_get_cg_def)
  have h5: "failing_rollback_get_cg ''minnie''
       = Inr (example_backend (Inl (LockingError ''busy'')) example_log)"
    by (simp add: failing_rollback_get_cg_def example_get_cg_def)
  have h6: "unpublished_rollback_get_cg ''minnie'' = Inr unpublished_backend"
    by (simp add: unpublished_rollback_get_cg_def)
  note c3 = rollback_undoes_all_descending [where get_cg = unpublished_rollback_get_cg
      and table_id = "''minnie''" and ?st0.0 = initial_state, OF h1 h2 h3 h6]
  have r3: "handle_rollback unpublished_rollback_get_cg ''minnie'' example_request initial_state
       = (Inl (OtherException ''ConnectionError''),
          \<lparr>cur_table_id = Some ''minnie'', cur_user_id = Some ''alice'',
           trace = [ReadLogRows 0, UndoOperation ''bob'' 5,
                    Publish ''minnie'' ''alice'' False some_roots_result]\<rparr>)"
    by (simp add: rollback_defs unpublished_rollback_get_cg_def unpublished_backend_def
        example_defs handler_defs)
  note c1 = rollback_undoes_all_descending [where get_cg = rollback_get_cg
      and table_id = "''minnie''" and ?st0.0 = initial_state, OF h1 h2 h3 h4]
  note c2 = rollback_undoes_all_descending [where get_cg = failing_rollback_get_cg
      and table_id = "''minnie''" and ?st0.0 = initial_state, OF h1 h2 h3 h5]
  have r1: "handle_rollback rollback_get_cg ''minnie'' example_request initial_state
       = (Inr ([3, 5], [10, 30]),
          \<lparr>cur_table_id = Some ''minnie'', cur_user_id = Some ''alice'',
           trace = [ReadLogRows 0,
                    UndoOperation ''bob'' 5, Publish ''minnie'' ''alice'' False some_roots_result,
                    UndoOperation ''bob'' 3, Publish ''minnie'' ''alice'' False some_roots_result]\<rparr>)"
    by (simp add: rollback_defs example_defs handler_defs)
  have r2: "handle_rollback failing_rollback_get_cg ''minnie'' example_request initial_state
       = (Inl (InternalServerError ''Could not acquire root lock for undo operation.''),
          \<lparr>cur_table_id = Some ''minnie'', cur_user_id = Some ''alice'',
           trace = [ReadLogRows 0, UndoOperation ''bob'' 5]\<rparr>)"
    by (simp add: rollback_defs failing_rollback_get_cg_def example_defs handler_defs)
  show ?thesis
    by (rule conjI [OF h1 conjI [OF h2 conjI [OF h3 conjI [OF h4 conjI [OF h5 conjI [OF h6
        conjI [OF c1 conjI [OF c2 conjI [OF c3 conjI [OF r1 conjI [OF r2 r3]]]]]]]]]]])
qed

text \<open>
  C9 as stated fails: operation 3 of Bob is already undone in the log, and the handler
  still calls \<open>undo_operation\<close> on it.
\<close>

theorem already_undone_not_skipped_counterexample:
  "already_undone example_log 3
   \<and> undo_calls (trace (snd (handle_rollback rollback_get_cg ''minnie'' example_request
        initial_state)))
     = [(''bob'', 5), (''bob'', 3)]"
  by (simp add: rollback_defs example_defs handler_defs)


section \<open>\<open>cutting.py\<close>: lemmas\<close>

text \<open>The search is unfolded by hand in the proofs.\<close>

declare plain_bfs.simps [simp del]

lemma plain_bfs_Nil: "plain_bfs es [] seen = seen"
  by (simp add: plain_bfs.simps)

lemma plain_bfs_Cons:
  "new = remdups (filter (\<lambda>w. w \<notin> set seen) (neighbors es v)) \<Longrightarrow>
   plain_bfs es (v # ws) seen = plain_bfs es (ws @ new) (seen @ new)"
  by (simp add: plain_bfs.simps Let_def)

lemma neighbors_adjacent: "v \<in> set (neighbors es u) \<longleftrightarrow> (u, v) \<in> adjacent es"
  by (auto simp: neighbors_def adjacent_def image_iff)

lemma sym_adjacent: "sym (adjacent es)"
  unfolding adjacent_def by (rule symI) auto

lemma component_sym: "v \<in> component_of es u \<Longrightarrow> u \<in> component_of es v"
  unfolding component_of_def mem_Collect_eq
  by (rule symD [OF sym_rtrancl [OF sym_adjacent]])

lemma component_refl: "u \<in> component_of es u"
  by (simp add: component_of_def)

lemma component_trans:
  "v \<in> component_of es u \<Longrightarrow> w \<in> component_of es v \<Longrightarrow> w \<in> component_of es u"
  by (auto simp: component_of_def)

lemma component_eq: "v \<in> component_of es u \<Longrightarrow> component_of es v = component_of es u"
  using component_sym component_trans by blast

lemma component_step:
  "v \<in> component_of es u \<Longrightarrow> (v, w) \<in> adjacent es \<Longrightarrow> w \<in> component_of es u"
  by (auto simp: component_of_def)

lemma plain_bfs_closed:
  "set ws \<subseteq> set seen \<Longrightarrow>
   (\<forall>x \<in> set seen - set ws. \<forall>y. (x, y) \<in> adjacent es \<longrightarrow> y \<in> set seen) \<Longrightarrow>
   set seen \<subseteq> set (plain_bfs es ws seen) \<and>
   (\<forall>x \<in> set (plain_bfs es ws seen). \<forall>y. (x, y) \<in> adjacent es \<longrightarrow> y \<in> set (plain_bfs es ws seen))"
proof (induction es ws seen rule: plain_bfs.induct)
  case (1 es seen)
  then show ?case by (simp add: plain_bfs_Nil)
next
  case (2 es v ws seen)
  define new where "new = remdups (filter (\<lambda>w. w \<notin> set seen) (neighbors es v))"
  have sub: "set (ws @ new) \<subseteq> set (seen @ new)"
    using "2.prems"(1) by auto
  have closed: "\<forall>x \<in> set (seen @ new) - set (ws @ new).
      \<forall>y. (x, y) \<in> adjacent es \<longrightarrow> y \<in> set (seen @ new)"
  proof (intro ballI allI impI)
    fix x y
    assume x: "x \<in> set (seen @ new) - set (ws @ new)" and xy: "(x, y) \<in> adjacent es"
    show "y \<in> set (seen @ new)"
    proof (cases "x = v")
      case True
      with xy have "y \<in> set (neighbors es v)" by (simp add: neighbors_adjacent)
      then show ?thesis by (auto simp: new_def)
    next
      case False
      from x have "x \<in> (set seen \<union> set new) - (set ws \<union> set new)"
        by (simp only: set_append)
      then have "x \<in> set seen" and "x \<notin> set ws" by blast+
      with False have "x \<in> set seen - set (v # ws)" by simp
      with "2.prems"(2) xy have "y \<in> set seen" by blast
      then show ?thesis by simp
    qed
  qed
  have "set (seen @ new) \<subseteq> set (plain_bfs es (ws @ new) (seen @ new)) \<and>
    (\<forall>x \<in> set (plain_bfs es (ws @ new) (seen @ new)).
       \<forall>y. (x, y) \<in> adjacent es \<longrightarrow> y \<in> set (plain_bfs es (ws @ new) (seen @ new)))"
    using "2.IH" [OF new_def sub closed] .
  then show ?case unfolding plain_bfs_Cons [OF new_def] by simp
qed

lemma plain_bfs_sound:
  "set ws \<subseteq> component_of es s \<Longrightarrow> set seen \<subseteq> component_of es s \<Longrightarrow>
   set (plain_bfs es ws seen) \<subseteq> component_of es s"
proof (induction es ws seen rule: plain_bfs.induct)
  case (1 es seen)
  then show ?case by (simp add: plain_bfs_Nil)
next
  case (2 es v ws seen)
  define new where "new = remdups (filter (\<lambda>w. w \<notin> set seen) (neighbors es v))"
  have v: "v \<in> component_of es s" using "2.prems"(1) by simp
  have new: "set new \<subseteq> component_of es s"
    using component_step [OF v] by (auto simp: new_def neighbors_adjacent)
  have "set (plain_bfs es (ws @ new) (seen @ new)) \<subseteq> component_of es s"
    using "2.IH" [OF new_def] "2.prems" new by simp
  then show ?case by (simp only: plain_bfs_Cons [OF new_def])
qed

lemma plain_bfs_distinct:
  "distinct seen \<Longrightarrow> distinct (plain_bfs es ws seen)"
proof (induction es ws seen rule: plain_bfs.induct)
  case (1 es seen)
  then show ?case by (simp add: plain_bfs_Nil)
next
  case (2 es v ws seen)
  define new where "new = remdups (filter (\<lambda>w. w \<notin> set seen) (neighbors es v))"
  have "distinct (seen @ new)" using "2.prems" by (auto simp: new_def)
  from "2.IH" [OF new_def this] show ?case by (simp only: plain_bfs_Cons [OF new_def])
qed

lemma plain_bfs_component: "set (plain_bfs es [s] [s]) = component_of es s"
proof
  show "set (plain_bfs es [s] [s]) \<subseteq> component_of es s"
    by (rule plain_bfs_sound) (simp_all add: component_refl)
next
  have cl: "set [s] \<subseteq> set (plain_bfs es [s] [s]) \<and>
    (\<forall>x \<in> set (plain_bfs es [s] [s]). \<forall>y. (x, y) \<in> adjacent es \<longrightarrow> y \<in> set (plain_bfs es [s] [s]))"
    by (rule plain_bfs_closed) simp_all
  show "component_of es s \<subseteq> set (plain_bfs es [s] [s])"
  proof
    fix y assume "y \<in> component_of es s"
    then have "(s, y) \<in> (adjacent es)\<^sup>*" by (simp add: component_of_def)
    then show "y \<in> set (plain_bfs es [s] [s])"
      by (induction rule: rtrancl_induct) (use cl in auto)
  qed
qed

lemma components_from_props:
  assumes "\<forall>x \<in> set seen. component_of es x \<subseteq> set seen"
  shows "distinct (concat (components_from es vs seen)) \<and>
         set (concat (components_from es vs seen)) \<inter> set seen = {} \<and>
         set (concat (components_from es vs seen)) \<union> set seen
           = (\<Union>v \<in> set vs. component_of es v) \<union> set seen \<and>
         (\<forall>c \<in> set (components_from es vs seen). c \<noteq> [] \<and> (\<forall>x \<in> set c. set c = component_of es x))"
  using assms
proof (induction vs arbitrary: seen)
  case Nil
  then show ?case by simp
next
  case (Cons v vs)
  show ?case
  proof (cases "v \<in> set seen")
    case True
    then have "component_of es v \<subseteq> set seen" using Cons.prems by blast
    then have "(\<Union>v \<in> set (v # vs). component_of es v) \<union> set seen
        = (\<Union>v \<in> set vs. component_of es v) \<union> set seen" by auto
    with Cons.IH [OF Cons.prems] True show ?thesis by simp
  next
    case False
    define c where "c = plain_bfs es [v] [v]"
    define rest where "rest = components_from es vs (seen @ c)"
    have c: "set c = component_of es v" unfolding c_def by (rule plain_bfs_component)
    have dc: "distinct c" unfolding c_def by (rule plain_bfs_distinct) simp
    have disj: "set c \<inter> set seen = {}"
    proof (rule ccontr)
      assume "set c \<inter> set seen \<noteq> {}"
      then obtain x where x: "x \<in> component_of es v" "x \<in> set seen" using c by auto
      then have "v \<in> component_of es x" by (simp add: component_sym)
      with Cons.prems x(2) have "v \<in> set seen" by blast
      with False show False by contradiction
    qed
    have closed: "\<forall>x \<in> set (seen @ c). component_of es x \<subseteq> set (seen @ c)"
    proof
      fix x assume "x \<in> set (seen @ c)"
      then consider "x \<in> set seen" | "x \<in> component_of es v" using c by auto
      then show "component_of es x \<subseteq> set (seen @ c)"
      proof cases
        case 1
        with Cons.prems show ?thesis by auto
      next
        case 2
        then have "component_of es x = set c" using c component_eq by simp
        then show ?thesis by simp
      qed
    qed
    have IH: "distinct (concat rest)" "set (concat rest) \<inter> set (seen @ c) = {}"
      "set (concat rest) \<union> set (seen @ c) = (\<Union>v \<in> set vs. component_of es v) \<union> set (seen @ c)"
      "\<forall>c \<in> set rest. c \<noteq> [] \<and> (\<forall>x \<in> set c. set c = component_of es x)"
      using Cons.IH [OF closed] unfolding rest_def by blast+
    have all: "\<forall>x \<in> set c. set c = component_of es x"
      using c component_eq by auto
    have ne: "c \<noteq> []" using c component_refl [of v es] by auto
    have eq: "components_from es (v # vs) seen = c # rest"
      using False by (simp add: c_def rest_def Let_def)
    have 1: "distinct (concat (c # rest))" using IH(1,2) dc by auto
    have 2: "set (concat (c # rest)) \<inter> set seen = {}" using IH(2) disj by auto
    have 3: "set (concat (c # rest)) \<union> set seen
        = (\<Union>v \<in> set (v # vs). component_of es v) \<union> set seen"
    proof -
      have "set (concat (c # rest)) \<union> set seen = set (concat rest) \<union> set (seen @ c)" by auto
      also have "\<dots> = (\<Union>v \<in> set vs. component_of es v) \<union> set (seen @ c)" by (rule IH(3))
      also have "\<dots> = (\<Union>v \<in> set (v # vs). component_of es v) \<union> set seen" using c by auto
      finally show ?thesis .
    qed
    have 4: "\<forall>c' \<in> set (c # rest). c' \<noteq> [] \<and> (\<forall>x \<in> set c'. set c' = component_of es x)"
      using IH(4) all ne by simp
    show ?thesis unfolding eq using 1 2 3 4 by blast
  qed
qed

lemma component_subset: "component_of es u \<subseteq> insert u (endpoints es)"
proof
  fix v assume "v \<in> component_of es u"
  then have "(u, v) \<in> (adjacent es)\<^sup>*" by (simp add: component_of_def)
  then show "v \<in> insert u (endpoints es)"
  proof (induction rule: rtrancl_induct)
    case base
    then show ?case by simp
  next
    case (step y z)
    from step(2) have "z \<in> endpoints es"
      by (force simp: adjacent_def endpoints_def)
    then show ?case by simp
  qed
qed

lemma component_isolated: "u \<notin> endpoints es \<Longrightarrow> component_of es u = {u}"
proof -
  assume u: "u \<notin> endpoints es"
  have "v = u" if "(u, v) \<in> (adjacent es)\<^sup>*" for v
    using that
  proof (induction rule: rtrancl_induct)
    case base
    then show ?case by simp
  next
    case (step y z)
    then have "(u, z) \<in> adjacent es" by simp
    then have "u \<in> endpoints es" by (force simp: adjacent_def endpoints_def)
    with u show ?case by contradiction
  qed
  then show ?thesis using component_refl [of u es] by (auto simp: component_of_def)
qed

lemma finite_component: "finite (component_of es u)"
  by (rule finite_subset [OF component_subset]) (simp add: endpoints_def)

lemma add_node_simps:
  "set (g_nodes (add_node v g)) = insert v (set (g_nodes g))"
  "g_edges (add_node v g) = g_edges g"
  "g_cap (add_node v g) = g_cap g"
  "distinct (g_nodes g) \<Longrightarrow> distinct (g_nodes (add_node v g))"
  by (auto simp: add_node_def)

lemma add_edge_props:
  "set (g_nodes (add_edge e g)) = insert (fst e) (insert (snd e) (set (g_nodes g)))"
  "adjacent (g_edges (add_edge e g)) = adjacent (g_edges g) \<union> adjacent [e]"
  "g_cap (add_edge e g) = g_cap g"
  "distinct (g_nodes g) \<Longrightarrow> distinct (g_nodes (add_edge e g))"
  by (auto simp: add_edge_def Let_def add_node_simps has_edge_def adjacent_def)

lemma adjacent_Cons: "adjacent (e # es) = adjacent [e] \<union> adjacent es"
  by (auto simp: adjacent_def)

lemma endpoints_Cons: "endpoints (e # es) = insert (fst e) (insert (snd e) (endpoints es))"
  by (auto simp: endpoints_def)

lemma add_edges_from_props:
  "set (g_nodes (add_edges_from es g)) = set (g_nodes g) \<union> endpoints es"
  "adjacent (g_edges (add_edges_from es g)) = adjacent (g_edges g) \<union> adjacent es"
  "g_cap (add_edges_from es g) = g_cap g"
  "distinct (g_nodes g) \<Longrightarrow> distinct (g_nodes (add_edges_from es g))"
proof -
  have "set (g_nodes (fold add_edge es g)) = set (g_nodes g) \<union> endpoints es
     \<and> adjacent (g_edges (fold add_edge es g)) = adjacent (g_edges g) \<union> adjacent es
     \<and> g_cap (fold add_edge es g) = g_cap g
     \<and> (distinct (g_nodes g) \<longrightarrow> distinct (g_nodes (fold add_edge es g)))"
  proof (induction es arbitrary: g)
    case Nil
    then show ?case by (simp add: endpoints_def adjacent_def)
  next
    case (Cons e es)
    let ?g = "add_edge e g"
    from Cons.IH [of ?g] have
      1: "set (g_nodes (fold add_edge es ?g)) = set (g_nodes ?g) \<union> endpoints es" and
      2: "adjacent (g_edges (fold add_edge es ?g)) = adjacent (g_edges ?g) \<union> adjacent es" and
      3: "g_cap (fold add_edge es ?g) = g_cap ?g" and
      4: "distinct (g_nodes ?g) \<longrightarrow> distinct (g_nodes (fold add_edge es ?g))"
      by blast+
    have a: "set (g_nodes (fold add_edge (e # es) g)) = set (g_nodes g) \<union> endpoints (e # es)"
      unfolding fold_simps 1 add_edge_props(1) endpoints_Cons by blast
    have b: "adjacent (g_edges (fold add_edge (e # es) g))
        = adjacent (g_edges g) \<union> adjacent (e # es)"
      unfolding fold_simps 2 add_edge_props(2) adjacent_Cons [of e es] by blast
    have c: "g_cap (fold add_edge (e # es) g) = g_cap g"
      unfolding fold_simps 3 add_edge_props(3) by (rule refl)
    have d: "distinct (g_nodes g) \<longrightarrow> distinct (g_nodes (fold add_edge (e # es) g))"
      unfolding fold_simps using 4 add_edge_props(4) [of g e] by blast
    from a b c d show ?case by (intro conjI)
  qed
  then show
    "set (g_nodes (add_edges_from es g)) = set (g_nodes g) \<union> endpoints es"
    "adjacent (g_edges (add_edges_from es g)) = adjacent (g_edges g) \<union> adjacent es"
    "g_cap (add_edges_from es g) = g_cap g"
    "distinct (g_nodes g) \<Longrightarrow> distinct (g_nodes (add_edges_from es g))"
    unfolding add_edges_from_def by simp_all
qed

lemma component_of_cong: "adjacent es = adjacent es' \<Longrightarrow> component_of es = component_of es'"
  by (simp add: component_of_def fun_eq_iff)

lemma connected_components_props:
  "distinct (concat (connected_components g))"
  "set (concat (connected_components g)) = (\<Union>v \<in> set (g_nodes g). component_of (g_edges g) v)"
  "c \<in> set (connected_components g) \<Longrightarrow> c \<noteq> []"
  "c \<in> set (connected_components g) \<Longrightarrow> x \<in> set c \<Longrightarrow> set c = component_of (g_edges g) x"
proof -
  have "\<forall>x \<in> set ([] :: node list). component_of (g_edges g) x \<subseteq> set ([] :: node list)"
    by simp
  note p = components_from_props [OF this, of "g_nodes g", folded connected_components_def]
  from p show "distinct (concat (connected_components g))" by (elim conjE)
  from p have "set (concat (connected_components g)) \<union> set ([] :: node list)
      = (\<Union>v \<in> set (g_nodes g). component_of (g_edges g) v) \<union> set ([] :: node list)"
    by (elim conjE)
  then show "set (concat (connected_components g))
      = (\<Union>v \<in> set (g_nodes g). component_of (g_edges g) v)" by simp
  from p have all: "\<forall>c \<in> set (connected_components g).
      c \<noteq> [] \<and> (\<forall>x \<in> set c. set c = component_of (g_edges g) x)"
    by (elim conjE)
  from all show "c \<in> set (connected_components g) \<Longrightarrow> c \<noteq> []" by blast
  from all show "c \<in> set (connected_components g) \<Longrightarrow> x \<in> set c
      \<Longrightarrow> set c = component_of (g_edges g) x" by blast
qed

lemma np_min_Min: "c \<noteq> [] \<Longrightarrow> np_min c = Inr (Min (set c))"
  by (cases c) (simp_all add: Min.set_eq_fold [symmetric])

lemma collect_components_eq:
  "\<forall>c \<in> set ccs. c \<noteq> [] \<Longrightarrow>
   collect_components ccs (m, r) = Inr (m @ component_rows ccs, component_dict ccs r)"
proof (induction ccs arbitrary: m r)
  case Nil
  then show ?case by (simp add: component_rows_def component_dict_def)
next
  case (Cons c ccs)
  then have c: "np_min c = Inr (Min (set c))" by (simp add: np_min_Min)
  have "collect_components (c # ccs) (m, r)
      = collect_components ccs (m @ map (\<lambda>n. (n, Min (set c))) c, r(Min (set c) \<mapsto> c))"
    by (simp add: c)
  also have "\<dots> = Inr ((m @ map (\<lambda>n. (n, Min (set c))) c) @ component_rows ccs,
      component_dict ccs (r(Min (set c) \<mapsto> c)))"
    using Cons.prems by (intro Cons.IH) simp
  finally show ?case by (simp add: component_rows_def component_dict_def)
qed

lemma flatten_set: "set (flatten es) = endpoints es"
  by (induction es) (auto simp: flatten_def endpoints_def)

lemma unique_props: "distinct (unique xs)" "set (unique xs) = set xs" "sorted (unique xs)"
  by (simp_all add: unique_def)

lemma component_rows_keys: "map fst (component_rows ccs) = concat ccs"
  by (induction ccs) (simp_all add: component_rows_def comp_def)

lemma component_rows_mem:
  "(x, v) \<in> set (component_rows ccs) \<longleftrightarrow> (\<exists>c \<in> set ccs. x \<in> set c \<and> v = Min (set c))"
  by (auto simp: component_rows_def)

lemma component_rows_endpoints:
  assumes "\<forall>c \<in> set ccs. c \<noteq> []"
  shows "endpoints (component_rows ccs) = set (concat ccs)"
proof -
  have "snd ` set (component_rows ccs) \<subseteq> set (concat ccs)"
  proof
    fix v assume "v \<in> snd ` set (component_rows ccs)"
    then obtain x where "(x, v) \<in> set (component_rows ccs)" by force
    then obtain c where c: "c \<in> set ccs" "x \<in> set c" "v = Min (set c)"
      unfolding component_rows_mem by blast
    from c(2) have "set c \<noteq> {}" by auto
    then have "Min (set c) \<in> set c" by (intro Min_in) simp_all
    then have "v \<in> set c" by (simp only: c(3))
    with c(1) show "v \<in> set (concat ccs)" by auto
  qed
  moreover have "fst ` set (component_rows ccs) = set (concat ccs)"
    using component_rows_keys [of ccs] by (metis set_map)
  ultimately show ?thesis unfolding endpoints_def by blast
qed

lemma mask_select_map: "mask_select (map g xs) bs = map g (mask_select xs bs)"
proof -
  have "zip (map g xs) bs = map (\<lambda>p. (g (fst p), snd p)) (zip xs bs)"
    by (induction xs arbitrary: bs) (auto simp: zip_Cons1 split: list.splits)
  then show ?thesis
    by (simp add: mask_select_def filter_map comp_def)
qed

lemma mask_select_subset: "set (mask_select xs bs) \<subseteq> set xs"
  by (auto simp: mask_select_def dest: set_zip_leftD)

lemma endpoints_mono: "set es \<subseteq> set es' \<Longrightarrow> endpoints es \<subseteq> endpoints es'"
  by (auto simp: endpoints_def)

lemma cross_endpoints: "endpoints (cross_edges edges affs) \<subseteq> endpoints edges"
  unfolding cross_edges_def by (rule endpoints_mono [OF mask_select_subset])

lemma cross_graph:
  "set (g_nodes (add_edges_from (cross_edges edges affs) empty_graph))
     = endpoints (cross_edges edges affs)"
  "adjacent (g_edges (add_edges_from (cross_edges edges affs) empty_graph))
     = adjacent (cross_edges edges affs)"
proof -
  show "set (g_nodes (add_edges_from (cross_edges edges affs) empty_graph))
     = endpoints (cross_edges edges affs)"
    unfolding add_edges_from_props(1) by (simp add: empty_graph_def)
  have "adjacent (g_edges empty_graph) = {}" by (simp add: empty_graph_def adjacent_def)
  then show "adjacent (g_edges (add_edges_from (cross_edges edges affs) empty_graph))
     = adjacent (cross_edges edges affs)"
    unfolding add_edges_from_props(2) by simp
qed

lemma cross_component_of:
  "component_of (g_edges (add_edges_from (cross_edges edges affs) empty_graph))
     = component_of (cross_edges edges affs)"
  by (rule component_of_cong) (rule cross_graph(2))

lemma cross_components_props:
  "distinct (concat (cross_components edges affs))"
  "set (concat (cross_components edges affs)) = endpoints (cross_edges edges affs)"
  "c \<in> set (cross_components edges affs) \<Longrightarrow> c \<noteq> []"
  "c \<in> set (cross_components edges affs) \<Longrightarrow> x \<in> set c
     \<Longrightarrow> set c = component_of (cross_edges edges affs) x"
proof -
  let ?g = "add_edges_from (cross_edges edges affs) empty_graph"
  show "distinct (concat (cross_components edges affs))"
    unfolding cross_components_def by (rule connected_components_props(1))
  have "(\<Union>v \<in> endpoints (cross_edges edges affs). component_of (cross_edges edges affs) v)
      = endpoints (cross_edges edges affs)"
    using component_subset [of "cross_edges edges affs"] component_refl [of _ "cross_edges edges affs"]
    by blast
  then show "set (concat (cross_components edges affs)) = endpoints (cross_edges edges affs)"
    unfolding cross_components_def connected_components_props(2) cross_graph(1)
      cross_component_of by simp
  show "c \<in> set (cross_components edges affs) \<Longrightarrow> c \<noteq> []"
    unfolding cross_components_def by (rule connected_components_props(3))
  show "c \<in> set (cross_components edges affs) \<Longrightarrow> x \<in> set c
     \<Longrightarrow> set c = component_of (cross_edges edges affs) x"
    unfolding cross_components_def
    using connected_components_props(4) [of c ?g x] by (simp add: cross_component_of)
qed

lemma searchsorted_index:
  "sorted (map fst rows) \<Longrightarrow> distinct (map fst rows) \<Longrightarrow> (x, v) \<in> set rows \<Longrightarrow>
   searchsorted (map fst rows) x < length rows \<and> rows ! searchsorted (map fst rows) x = (x, v)"
proof (induction rows)
  case Nil
  then show ?case by simp
next
  case (Cons r rows)
  show ?case
  proof (cases "r = (x, v)")
    case True
    then show ?thesis by (simp add: searchsorted_def)
  next
    case False
    with Cons.prems have mem: "(x, v) \<in> set rows" by simp
    then have xk: "x \<in> set (map fst rows)" by force
    from Cons.prems(1) xk have "fst r \<le> x" by auto
    moreover from Cons.prems(2) xk have "fst r \<noteq> x" by auto
    ultimately have lt: "fst r < x" by simp
    from Cons.prems have "sorted (map fst rows)" "distinct (map fst rows)" by simp_all
    from Cons.IH [OF this mem] lt show ?thesis by (simp add: searchsorted_def)
  qed
qed

lemma lookup_sorted_mem:
  "sorted (map fst rows) \<Longrightarrow> distinct (map fst rows) \<Longrightarrow> (x, v) \<in> set rows \<Longrightarrow>
   lookup_sorted rows x = Inr v"
  using searchsorted_index [of rows x v] by (simp add: lookup_sorted_def Let_def)

lemma remap_edges_map:
  "\<forall>x \<in> endpoints es. lookup_sorted rows x = Inr (f x) \<Longrightarrow>
   remap_edges rows es = Inr (map (\<lambda>e. (f (fst e), f (snd e))) es)"
  by (induction es) (simp_all add: endpoints_Cons)

lemma mapping_keys:
  "distinct (map fst (merge_mapping edges affs))"
  "set (map fst (merge_mapping edges affs)) = endpoints edges"
proof -
  let ?ccs = "cross_components edges affs"
  let ?un = "filter (\<lambda>n. n \<notin> set (flatten (component_rows ?ccs))) (unique (flatten edges))"
  have ne: "\<forall>c \<in> set ?ccs. c \<noteq> []" using cross_components_props(3) by blast
  have fl: "endpoints (component_rows ?ccs) = endpoints (cross_edges edges affs)"
    unfolding component_rows_endpoints [OF ne] cross_components_props(2) ..
  have keys: "map fst (merge_mapping edges affs) = concat ?ccs @ ?un"
    by (simp add: merge_mapping_def component_rows_keys comp_def)
  have un: "set ?un = endpoints edges - endpoints (cross_edges edges affs)"
    unfolding set_filter unique_props(2) flatten_set fl by blast
  have "distinct ?un" using unique_props(1) by simp
  moreover have "set (concat ?ccs) \<inter> set ?un = {}"
    unfolding un cross_components_props(2) by blast
  ultimately show "distinct (map fst (merge_mapping edges affs))"
    unfolding keys using cross_components_props(1) [of edges affs] by simp
  show "set (map fst (merge_mapping edges affs)) = endpoints edges"
    unfolding keys set_append un cross_components_props(2)
    using cross_endpoints [of edges affs] by blast
qed

lemma mapping_value:
  assumes "(x, v) \<in> set (merge_mapping edges affs)"
  shows "v = representative edges affs x"
proof -
  let ?ccs = "cross_components edges affs"
  have ne: "\<forall>c \<in> set ?ccs. c \<noteq> []" using cross_components_props(3) by blast
  have fl: "endpoints (component_rows ?ccs) = endpoints (cross_edges edges affs)"
    unfolding component_rows_endpoints [OF ne] cross_components_props(2) ..
  from assms consider (rows) "(x, v) \<in> set (component_rows ?ccs)"
    | (self) "v = x" "x \<notin> endpoints (cross_edges edges affs)"
    unfolding merge_mapping_def set_append by (auto simp: flatten_set fl unique_props(2))
  then show ?thesis
  proof cases
    case rows
    then obtain c where c: "c \<in> set ?ccs" "x \<in> set c" "v = Min (set c)"
      unfolding component_rows_mem by blast
    from cross_components_props(4) [OF c(1,2)] c(3) show ?thesis
      by (simp add: representative_def)
  next
    case self
    then show ?thesis by (simp add: representative_def component_isolated)
  qed
qed

lemma mapping_lookup:
  assumes "x \<in> endpoints edges"
  shows "(x, representative edges affs x) \<in> set (merge_mapping edges affs)"
    and "map_of (rev (merge_mapping edges affs)) x = Some (representative edges affs x)"
    and "lookup_sorted (sort_key fst (merge_mapping edges affs)) x
         = Inr (representative edges affs x)"
proof -
  let ?m = "merge_mapping edges affs"
  from assms have "x \<in> set (map fst ?m)" by (simp only: mapping_keys(2))
  then obtain v where v: "(x, v) \<in> set ?m" by force
  with mapping_value [OF v] show mem: "(x, representative edges affs x) \<in> set ?m" by simp
  have "distinct (map fst (rev ?m))" using mapping_keys(1) [of edges affs] by (simp only: rev_map [symmetric] distinct_rev)
  then show "map_of (rev ?m) x = Some (representative edges affs x)"
    using mem by (intro map_of_is_SomeI) simp_all
  have "sorted (map fst (sort_key fst ?m))" by (rule sorted_sort_key)
  moreover have "distinct (map fst (sort_key fst ?m))"
    using mapping_keys(1) [of edges affs] by (simp add: distinct_map)
  moreover have "(x, representative edges affs x) \<in> set (sort_key fst ?m)" using mem by simp
  ultimately show "lookup_sorted (sort_key fst ?m) x = Inr (representative edges affs x)"
    by (rule lookup_sorted_mem)
qed

lemma merge_cross_chunk_edges_eq:
  assumes "length edges = length affs"
  shows "merge_cross_chunk_edges edges affs
     = Inr (map (\<lambda>e. (representative edges affs (fst e), representative edges affs (snd e)))
              (weighted_edges edges affs),
            weighted_affs edges affs, merge_mapping edges affs, merge_remapping edges affs)"
proof -
  let ?ccs = "cross_components edges affs"
  have ne: "\<forall>c \<in> set ?ccs. c \<noteq> []" using cross_components_props(3) by blast
  have cc: "collect_components ?ccs ([], Map.empty)
      = Inr (component_rows ?ccs, merge_remapping edges affs)"
    using collect_components_eq [OF ne, of "[]" Map.empty] by (simp add: merge_remapping_def)
  have re: "remap_edges (sort_key fst (merge_mapping edges affs)) edges
      = Inr (map (\<lambda>e. (representative edges affs (fst e), representative edges affs (snd e)))
               edges)"
    by (rule remap_edges_map) (simp add: mapping_lookup(3))
  show ?thesis
    unfolding merge_cross_chunk_edges_def
    using assms cc re
    by (simp add: Let_def cross_components_def [symmetric] cross_edges_def [symmetric]
        merge_mapping_def [symmetric] mask_select_map weighted_edges_def weighted_affs_def)
qed

lemma assign_caps_simps:
  "assign_caps [] m = m"
  "assign_caps (p # L) m = assign_caps L (m(fst p \<mapsto> snd p, (snd (fst p), fst (fst p)) \<mapsto> snd p))"
  "assign_caps (A @ B) m = assign_caps B (assign_caps A m)"
  by (simp_all add: assign_caps_def)

lemma assign_caps_untouched:
  "\<forall>p \<in> set B. \<not> touches e (fst p) \<Longrightarrow> assign_caps B m e = m e"
proof (induction B arbitrary: m)
  case Nil
  then show ?case by (simp add: assign_caps_simps)
next
  case (Cons p B)
  from Cons.prems have p: "fst p \<noteq> e" "(snd (fst p), fst (fst p)) \<noteq> e"
    by (auto simp: touches_def)
  from Cons.prems have "\<forall>p \<in> set B. \<not> touches e (fst p)" by simp
  from Cons.IH [OF this] p show ?case by (simp add: assign_caps_simps)
qed

lemma assign_caps_block:
  "\<forall>p \<in> set B. snd p = c \<Longrightarrow> \<exists>p \<in> set B. touches e (fst p) \<Longrightarrow>
   assign_caps B m e = Some c"
proof (induction B arbitrary: m)
  case Nil
  then show ?case by simp
next
  case (Cons p B)
  from Cons.prems(1) have all: "\<forall>p \<in> set B. snd p = c" and pc: "snd p = c" by simp_all
  show ?case
  proof (cases "\<exists>q \<in> set B. touches e (fst q)")
    case True
    from Cons.IH [OF all True] show ?thesis by (simp add: assign_caps_simps)
  next
    case False
    with Cons.prems(2) have t: "touches e (fst p)" by auto
    from False have "\<forall>q \<in> set B. \<not> touches e (fst q)" by blast
    from assign_caps_untouched [OF this] t pc show ?thesis
      by (auto simp: assign_caps_simps touches_def)
  qed
qed

lemma assign_caps_last:
  "\<forall>p \<in> set B. \<not> touches e (fst p) \<Longrightarrow> touches e e' \<Longrightarrow>
   assign_caps (A @ (e', c) # B) m e = Some c"
proof -
  assume B: "\<forall>p \<in> set B. \<not> touches e (fst p)" and t: "touches e e'"
  have "assign_caps (A @ (e', c) # B) m e = assign_caps ((e', c) # B) (assign_caps A m) e"
    by (simp add: assign_caps_simps)
  also have "\<dots> = (assign_caps [(e', c)] (assign_caps A m)) e"
    using assign_caps_untouched [OF B] by (simp add: assign_caps_simps)
  also have "\<dots> = Some c" using t by (auto simp: assign_caps_simps touches_def)
  finally show ?thesis .
qed

lemma has_edge_adjacent: "has_edge g u v \<longleftrightarrow> (u, v) \<in> adjacent (g_edges g)"
  by (auto simp: has_edge_def adjacent_def)

lemma set_capacities_eq:
  "\<forall>p \<in> set L. has_edge g (fst (fst p)) (snd (fst p)) \<Longrightarrow>
   set_capacities L g = Inr (g\<lparr>g_cap := assign_caps L (g_cap g)\<rparr>)"
proof (induction L arbitrary: g)
  case Nil
  then show ?case by (simp add: assign_caps_simps)
next
  case (Cons p L)
  obtain e c where p: "p = (e, c)" by (cases p)
  let ?g = "g\<lparr>g_cap := (g_cap g)(e \<mapsto> c, (snd e, fst e) \<mapsto> c)\<rparr>"
  from Cons.prems p have sc: "set_capacity e c g = Inr ?g"
    by (simp add: set_capacity_def)
  have "\<forall>p \<in> set L. has_edge ?g (fst (fst p)) (snd (fst p))"
    using Cons.prems by (simp add: has_edge_def)
  from Cons.IH [OF this] have ih:
    "set_capacities L ?g = Inr (?g\<lparr>g_cap := assign_caps L (g_cap ?g)\<rparr>)" .
  have step: "set_capacities (p # L) g = set_capacities L ?g"
    unfolding p by (simp only: set_capacities.simps sc sum.case)
  have caps: "assign_caps (p # L) (g_cap g) = assign_caps L (g_cap ?g)"
    unfolding p assign_caps_simps(2) by simp
  have rec: "?g\<lparr>g_cap := assign_caps L (g_cap ?g)\<rparr> = g\<lparr>g_cap := assign_caps L (g_cap ?g)\<rparr>"
    by simp
  show ?case unfolding step ih caps rec ..
qed

lemma endpoints_product: "endpoints (List.product xs xs) = set xs"
  by (auto simp: endpoints_def image_iff)

lemma bare_graph_props:
  "set (g_nodes (bare_graph edges sources sinks)) = endpoints edges \<union> set sinks \<union> set sources"
  "adjacent (g_edges (bare_graph edges sources sinks))
     = adjacent edges \<union> adjacent (List.product sinks sinks)
       \<union> adjacent (List.product sources sources)"
  "g_cap (bare_graph edges sources sinks) = (\<lambda>e. None)"
proof -
  have e: "adjacent (g_edges empty_graph) = {}" "set (g_nodes empty_graph) = {}"
    "g_cap empty_graph = (\<lambda>e. None)"
    by (simp_all add: empty_graph_def adjacent_def)
  show "set (g_nodes (bare_graph edges sources sinks)) = endpoints edges \<union> set sinks \<union> set sources"
    unfolding bare_graph_def add_edges_from_props(1) endpoints_product e by blast
  show "adjacent (g_edges (bare_graph edges sources sinks))
     = adjacent edges \<union> adjacent (List.product sinks sinks)
       \<union> adjacent (List.product sources sources)"
    unfolding bare_graph_def add_edges_from_props(2) e by blast
  show "g_cap (bare_graph edges sources sinks) = (\<lambda>e. None)"
    unfolding bare_graph_def add_edges_from_props(3) e ..
qed

lemma working_graph_eq:
  assumes "length edges = length affs"
  shows "working_graph edges affs sources sinks
     = Inr ((bare_graph edges sources sinks)
            \<lparr>g_cap := assign_caps (capacity_writes edges affs sources sinks) (\<lambda>e. None)\<rparr>)"
proof -
  let ?g = "bare_graph edges sources sinks"
  have "\<forall>p \<in> set (capacity_writes edges affs sources sinks).
      has_edge ?g (fst (fst p)) (snd (fst p))"
  proof
    fix p assume "p \<in> set (capacity_writes edges affs sources sinks)"
    then have "fst p \<in> set edges \<union> set (List.product sinks sinks)
        \<union> set (List.product sources sources)"
      unfolding capacity_writes_def using set_zip_leftD [of "fst p" "snd p" edges affs]
      by auto
    then have "fst p \<in> adjacent edges \<union> adjacent (List.product sinks sinks)
        \<union> adjacent (List.product sources sources)"
      unfolding adjacent_def by blast
    then show "has_edge ?g (fst (fst p)) (snd (fst p))"
      unfolding has_edge_adjacent bare_graph_props(2) by simp
  qed
  from set_capacities_eq [OF this] assms show ?thesis
    by (simp add: working_graph_def Let_def bare_graph_def [symmetric]
        capacity_writes_def [symmetric] bare_graph_props(3))
qed

lemma count_list_distinct: "distinct xs \<Longrightarrow> x \<in> set xs \<Longrightarrow> count_list xs x = 1"
  by (induction xs) auto

lemma fold_max_ones: "xs \<noteq> [] \<Longrightarrow> \<forall>x \<in> set xs. x = (1::nat) \<Longrightarrow> fold max xs a = max a 1"
proof (induction xs arbitrary: a)
  case Nil
  then show ?case by simp
next
  case (Cons x xs)
  show ?case
  proof (cases "xs = []")
    case True
    with Cons.prems show ?thesis by simp
  next
    case False
    with Cons.prems Cons.IH [of "max x a"] show ?thesis by simp
  qed
qed

lemma max_count_distinct: "keys \<noteq> [] \<Longrightarrow> distinct keys \<Longrightarrow> max_count keys = Inr 1"
proof -
  assume k: "keys \<noteq> []" and d: "distinct keys"
  have "\<forall>x \<in> set (map (count_list keys) keys). x = 1"
    using count_list_distinct [OF d] by auto
  moreover have "map (count_list keys) keys \<noteq> []" using k by simp
  ultimately have "fold max (map (count_list keys) keys) 0 = max 0 1"
    by (rule fold_max_ones [rotated])
  with k show ?thesis by (simp add: max_count_def)
qed

lemma endpoints_empty: "endpoints es = {} \<longleftrightarrow> es = []"
  by (cases es) (auto simp: endpoints_def)

lemma mask_select_simps:
  "mask_select [] bs = []"
  "mask_select xs [] = []"
  "mask_select (x # xs) (b # bs) = (if b then x # mask_select xs bs else mask_select xs bs)"
  by (simp_all add: mask_select_def)

lemma mask_select_length:
  "length xs = length ys \<Longrightarrow> length (mask_select xs bs) = length (mask_select ys bs)"
proof (induction xs ys arbitrary: bs rule: list_induct2)
  case Nil
  then show ?case by (simp add: mask_select_simps)
next
  case (Cons x xs y ys)
  show ?case
  proof (cases bs)
    case Nil
    then show ?thesis by (simp add: mask_select_simps)
  next
    case bs: (Cons b bs')
    from Cons.IH [of bs'] show ?thesis by (simp add: bs mask_select_simps)
  qed
qed

lemma coalesced_length:
  "length edges = length affs \<Longrightarrow>
   length (coalesced_edges edges affs) = length (weighted_affs edges affs)"
  unfolding coalesced_edges_def weighted_edges_def weighted_affs_def length_map
  by (rule mask_select_length)

lemma mincut_setup_eq:
  assumes "length edges = length affs"
  shows "mincut_setup edges affs sources0 sinks0
     = (if coalesced_edges edges affs = [] then Inr None
        else Inr (Some
          ((bare_graph (coalesced_edges edges affs)
              (map (remap_terminal (map_of (rev (merge_mapping edges affs)))) sources0)
              (map (remap_terminal (map_of (rev (merge_mapping edges affs)))) sinks0))
             \<lparr>g_cap := assign_caps
                (capacity_writes (coalesced_edges edges affs) (weighted_affs edges affs)
                   (map (remap_terminal (map_of (rev (merge_mapping edges affs)))) sources0)
                   (map (remap_terminal (map_of (rev (merge_mapping edges affs)))) sinks0))
                (\<lambda>e. None)\<rparr>,
           map (remap_terminal (map_of (rev (merge_mapping edges affs)))) sources0,
           map (remap_terminal (map_of (rev (merge_mapping edges affs)))) sinks0,
           merge_remapping edges affs)))"
proof (cases "coalesced_edges edges affs = []")
  case True
  then show ?thesis
    by (simp add: mincut_setup_def merge_cross_chunk_edges_eq [OF assms]
        coalesced_edges_def [symmetric])
next
  case False
  then have "edges \<noteq> []"
    by (auto simp: coalesced_edges_def weighted_edges_def mask_select_def)
  then have "map fst (merge_mapping edges affs) \<noteq> []"
    using mapping_keys(2) [of edges affs] endpoints_empty [of edges] by (metis set_empty)
  from max_count_distinct [OF this mapping_keys(1)] False show ?thesis
    by (simp add: mincut_setup_def merge_cross_chunk_edges_eq [OF assms]
        coalesced_edges_def [symmetric] Let_def
        working_graph_eq [OF coalesced_length [OF assms]])
qed

lemmas cut_example_defs = chain_edges_def chain_affs_def parallel_edges_def parallel_affs_def

lemmas cut_defs = mincut_def mincut_setup_def mincut_cutset_def merge_cross_chunk_edges_def
  working_graph_def connected_components_def add_edges_from_def add_edge_def add_node_def
  has_edge_def empty_graph_def neighbors_def mask_select_def flatten_def unique_def
  lookup_sorted_def searchsorted_def max_count_def remap_terminal_def set_capacity_def
  any_in_def any_not_in_def remove_nodes_from_def uncoalesce_def expand_def
  plain_bfs.simps Let_def word_le_nat_alt

lemma merge_cross_chunk_edges_example:
  "\<exists>mapping remapping.
     merge_cross_chunk_edges chain_edges chain_affs
       = Inr ([(10, 30)], [Fin 5], mapping, remapping)
     \<and> mapping = [(10, 10), (20, 10), (30, 30), (40, 30)]
     \<and> remapping 10 = Some [10, 20] \<and> remapping 30 = Some [30, 40] \<and> remapping 20 = None"
  by (simp add: cut_defs cut_example_defs)

lemma remap_terminal_eq:
  "remap_terminal (map_of (rev (merge_mapping edges affs))) t
   = (if t \<in> endpoints edges then representative edges affs t else t)"
proof (cases "t \<in> endpoints edges")
  case True
  then show ?thesis by (simp add: remap_terminal_def mapping_lookup(2))
next
  case False
  have "fst ` set (rev (merge_mapping edges affs)) = endpoints edges"
    using mapping_keys(2) [of edges affs] by (simp only: set_rev set_map)
  with False have "t \<notin> fst ` set (rev (merge_mapping edges affs))" by blast
  then have "map_of (rev (merge_mapping edges affs)) t = None"
    by (simp add: map_of_eq_None_iff)
  with False show ?thesis by (simp add: remap_terminal_def)
qed

lemma no_cross_edges:
  assumes "cross_edges edges affs = []"
  shows "representative edges affs u = u"
    and "coalesced_edges edges affs = weighted_edges edges affs"
    and "map (remap_terminal (map_of (rev (merge_mapping edges affs)))) ts = ts"
proof -
  show r: "representative edges affs u = u" for u
    by (simp add: representative_def assms component_isolated endpoints_def)
  show "coalesced_edges edges affs = weighted_edges edges affs"
    by (simp add: coalesced_edges_def r)
  show "map (remap_terminal (map_of (rev (merge_mapping edges affs)))) ts = ts"
    by (simp add: remap_terminal_eq r map_idI)
qed






lemma component_dict_Some:
  "component_dict ccs r u = Some c \<Longrightarrow> (c \<in> set ccs \<and> Min (set c) = u) \<or> r u = Some c"
proof (induction ccs arbitrary: r)
  case Nil
  then show ?case by (simp add: component_dict_def)
next
  case (Cons a ccs)
  from Cons.prems have "component_dict ccs (r(Min (set a) \<mapsto> a)) u = Some c"
    by (simp add: component_dict_def)
  from Cons.IH [OF this] show ?case by (auto split: if_splits)
qed

lemma component_dict_hit:
  "c \<in> set ccs \<Longrightarrow> component_dict ccs r (Min (set c)) \<noteq> None"
proof (induction ccs arbitrary: r)
  case Nil
  then show ?case by simp
next
  case (Cons a ccs)
  have step: "component_dict (a # ccs) r = component_dict ccs (r(Min (set a) \<mapsto> a))"
    by (simp add: component_dict_def)
  show ?case
  proof (cases "c \<in> set ccs")
    case True
    from Cons.IH [OF this] show ?thesis unfolding step .
  next
    case False
    with Cons.prems have ca: "c = a" by simp
    have keep: "r' u \<noteq> None \<Longrightarrow> component_dict ccs r' u \<noteq> None" for r' u
    proof (induction ccs arbitrary: r')
      case Nil
      then show ?case by (simp add: component_dict_def)
    next
      case (Cons b ccs)
      have "component_dict (b # ccs) r' = component_dict ccs (r'(Min (set b) \<mapsto> b))"
        by (simp add: component_dict_def)
      moreover have "(r'(Min (set b) \<mapsto> b)) u \<noteq> None" using Cons.prems by simp
      ultimately show ?case using Cons.IH by simp
    qed
    show ?thesis unfolding step ca by (rule keep) simp
  qed
qed

lemma representative_in_component:
  "representative edges affs x \<in> component_of (cross_edges edges affs) x"
  unfolding representative_def
  using component_refl [of x "cross_edges edges affs"]
  by (intro Min_in finite_component) auto

lemma members_component:
  assumes c: "c \<in> set (cross_components edges affs)"
  shows "members edges affs (Min (set c)) = set c"
proof -
  have ne: "set c \<noteq> {}" using cross_components_props(3) [OF c] by simp
  then have m: "Min (set c) \<in> set c" by (intro Min_in) simp_all
  have sub: "set c \<subseteq> endpoints edges"
    using cross_components_props(2) [of edges affs] cross_endpoints [of edges affs] c by auto
  show ?thesis
  proof (intro set_eqI iffI)
    fix x assume "x \<in> members edges affs (Min (set c))"
    then have "representative edges affs x = Min (set c)" by (simp add: members_def)
    with representative_in_component [of edges affs x]
    have "Min (set c) \<in> component_of (cross_edges edges affs) x" by simp
    then have "x \<in> component_of (cross_edges edges affs) (Min (set c))"
      by (rule component_sym)
    then show "x \<in> set c" using cross_components_props(4) [OF c m] by simp
  next
    fix x assume x: "x \<in> set c"
    from cross_components_props(4) [OF c x]
    have "representative edges affs x = Min (set c)" by (simp add: representative_def)
    with x sub show "x \<in> members edges affs (Min (set c))" by (auto simp: members_def)
  qed
qed

lemma expand_members:
  assumes P: "u \<notin> endpoints edges \<or> (\<exists>x \<in> endpoints edges. representative edges affs x = u)"
  shows "set (expand (merge_remapping edges affs) u) \<inter> endpoints edges = members edges affs u"
proof (cases "merge_remapping edges affs u")
  case (Some c)
  then have c: "c \<in> set (cross_components edges affs)" and u: "Min (set c) = u"
    using component_dict_Some [of "cross_components edges affs" Map.empty u c]
    by (simp_all add: merge_remapping_def)
  have "set c \<subseteq> endpoints edges"
    using cross_components_props(2) [of edges affs] cross_endpoints [of edges affs] c by auto
  with members_component [OF c] Some u show ?thesis by (auto simp: expand_def)
next
  case None
  have nocomp: "Min (set c) \<noteq> u" if "c \<in> set (cross_components edges affs)" for c
    using component_dict_hit [OF that, of Map.empty] None by (auto simp: merge_remapping_def)
  have ex: "expand (merge_remapping edges affs) u = [u]" by (simp add: expand_def None)
  have iso: "x \<notin> endpoints (cross_edges edges affs)"
    if "x \<in> endpoints edges" "representative edges affs x = u" for x
  proof
    assume "x \<in> endpoints (cross_edges edges affs)"
    then have "x \<in> set (concat (cross_components edges affs))"
      by (simp only: cross_components_props(2))
    then obtain c where c: "c \<in> set (cross_components edges affs)" "x \<in> set c" by auto
    from cross_components_props(4) [OF c] that(2) have "Min (set c) = u"
      by (simp add: representative_def)
    with nocomp [OF c(1)] show False by contradiction
  qed
  have self: "x = u" if "x \<in> endpoints edges" "representative edges affs x = u" for x
    using iso [OF that] that(2) by (simp add: representative_def component_isolated)
  show ?thesis
  proof (cases "u \<in> endpoints edges")
    case False
    have "members edges affs u = {}"
    proof (rule ccontr)
      assume "members edges affs u \<noteq> {}"
      then obtain x where x: "x \<in> endpoints edges" "representative edges affs x = u"
        by (auto simp: members_def)
      from self [OF x] x(1) False show False by simp
    qed
    with False show ?thesis by (simp add: ex)
  next
    case True
    with P obtain x where x: "x \<in> endpoints edges" "representative edges affs x = u" by blast
    from self [OF x] x have "representative edges affs u = u" by simp
    have "members edges affs u = {u}"
    proof (intro set_eqI iffI)
      fix y assume "y \<in> members edges affs u"
      then have "y \<in> endpoints edges" "representative edges affs y = u"
        by (simp_all add: members_def)
      from self [OF this] show "y \<in> {u}" by simp
    next
      fix y assume "y \<in> {u}"
      with True \<open>representative edges affs u = u\<close>
      show "y \<in> members edges affs u" by (simp add: members_def)
    qed
    with True show ?thesis by (simp add: ex)
  qed
qed

lemma uncoalesce_set:
  "set (uncoalesce remapping cutset edges)
   = (\<Union>cut \<in> set cutset.
        set (expand remapping (fst cut)) \<times> set (expand remapping (snd cut))
        \<union> set (expand remapping (snd cut)) \<times> set (expand remapping (fst cut)))
     \<inter> set edges"
  by (auto simp: uncoalesce_def Let_def)

lemma edges_in_endpoints: "set edges \<subseteq> endpoints edges \<times> endpoints edges"
  by (force simp: endpoints_def)

lemma mincut_setup_Inr_length:
  "mincut_setup edges affs sources sinks = Inr r \<Longrightarrow> length edges = length affs"
  by (auto simp: mincut_setup_def merge_cross_chunk_edges_def split: if_splits)

lemma coalesced_endpoints:
  assumes "u \<in> endpoints (coalesced_edges edges affs)"
  shows "\<exists>x \<in> endpoints edges. representative edges affs x = u"
proof -
  from assms obtain e where e: "e \<in> set (weighted_edges edges affs)"
    and u: "u = representative edges affs (fst e) \<or> u = representative edges affs (snd e)"
    by (auto simp: coalesced_edges_def endpoints_def)
  from e have "e \<in> set edges"
    using mask_select_subset [of edges] by (auto simp: weighted_edges_def)
  then have "fst e \<in> endpoints edges" "snd e \<in> endpoints edges"
    by (auto simp: endpoints_def)
  with u show ?thesis by blast
qed

lemma mincut_setup_remapping:
  assumes "mincut_setup edges affs sources sinks = Inr (Some (wg, rsources, rsinks, remapping))"
  shows "remapping = merge_remapping edges affs"
proof -
  have len: "length edges = length affs" by (rule mincut_setup_Inr_length [OF assms])
  from assms show ?thesis
    unfolding mincut_setup_eq [OF len] by (auto split: if_splits)
qed

lemma working_graph_nodes:
  assumes su: "mincut_setup edges affs sources sinks = Inr (Some (wg, rsources, rsinks, remapping))"
    and u: "u \<in> set (g_nodes wg)"
  shows "u \<notin> endpoints edges \<or> (\<exists>x \<in> endpoints edges. representative edges affs x = u)"
proof -
  let ?rt = "remap_terminal (map_of (rev (merge_mapping edges affs)))"
  have len: "length edges = length affs" by (rule mincut_setup_Inr_length [OF su])
  from su have ne: "coalesced_edges edges affs \<noteq> []"
    unfolding mincut_setup_eq [OF len] by (auto split: if_splits)
  from su ne have wg: "g_nodes wg
      = g_nodes (bare_graph (coalesced_edges edges affs) (map ?rt sources) (map ?rt sinks))"
    unfolding mincut_setup_eq [OF len] by auto
  from u have "u \<in> endpoints (coalesced_edges edges affs) \<union> set (map ?rt sinks)
                 \<union> set (map ?rt sources)"
    unfolding wg bare_graph_props(1) .
  then consider "u \<in> endpoints (coalesced_edges edges affs)"
    | t where "u = ?rt t" by auto
  then show ?thesis
  proof cases
    case 1
    from coalesced_endpoints [OF this] show ?thesis ..
  next
    case 2
    show ?thesis
    proof (cases "t \<in> endpoints edges")
      case True
      with 2 have "representative edges affs t = u" by (simp add: remap_terminal_eq)
      with True show ?thesis by blast
    next
      case False
      with 2 have "u = t" by (simp add: remap_terminal_eq)
      with False show ?thesis by simp
    qed
  qed
qed

lemma mincut_returns_subset:
  assumes "mincut mc edges affs sources sinks = Inr (out, res)"
  shows "set res \<subseteq> set edges"
  using assms
  by (auto simp: mincut_def uncoalesce_def Let_def split: sum.splits option.splits prod.splits)

lemma uncoalesce_members:
  assumes su: "mincut_setup edges affs sources sinks = Inr (Some (wg, rsources, rsinks, remapping))"
    and cs: "mincut_cutset mc wg rsources rsinks = Inr (Inr cutset)"
    and nodes: "\<forall>cut \<in> set cutset. fst cut \<in> set (g_nodes wg) \<and> snd cut \<in> set (g_nodes wg)"
  shows "\<exists>res. mincut mc edges affs sources sinks = Inr ([], res)
           \<and> set res \<subseteq> set edges
           \<and> set res
             = (\<Union>cut \<in> set cutset.
                  members edges affs (fst cut) \<times> members edges affs (snd cut)
                  \<union> members edges affs (snd cut) \<times> members edges affs (fst cut))
               \<inter> set edges"
proof -
  let ?res = "uncoalesce remapping cutset edges"
  let ?E = "endpoints edges"
  have rm: "remapping = merge_remapping edges affs"
    by (rule mincut_setup_remapping [OF su])
  have ret: "mincut mc edges affs sources sinks = Inr ([], ?res)"
    by (simp add: mincut_def su cs)
  have ex: "set (expand remapping u) \<inter> ?E = members edges affs u"
    if "u \<in> set (g_nodes wg)" for u
    unfolding rm by (rule expand_members [OF working_graph_nodes [OF su that]])
  have sub: "set ?res \<subseteq> set edges" by (auto simp: uncoalesce_set)
  have prod: "(A \<times> B \<union> B \<times> A) \<inter> set edges
      = ((A \<inter> ?E) \<times> (B \<inter> ?E) \<union> (B \<inter> ?E) \<times> (A \<inter> ?E)) \<inter> set edges" for A B
    using edges_in_endpoints [of edges] by blast
  have "set ?res
      = (\<Union>cut \<in> set cutset.
           (set (expand remapping (fst cut)) \<times> set (expand remapping (snd cut))
            \<union> set (expand remapping (snd cut)) \<times> set (expand remapping (fst cut)))
           \<inter> set edges)"
    unfolding uncoalesce_set by blast
  also have "\<dots>
      = (\<Union>cut \<in> set cutset.
           (members edges affs (fst cut) \<times> members edges affs (snd cut)
            \<union> members edges affs (snd cut) \<times> members edges affs (fst cut))
           \<inter> set edges)"
  proof (rule SUP_cong [OF refl])
    fix cut assume "cut \<in> set cutset"
    with nodes have a: "fst cut \<in> set (g_nodes wg)" and b: "snd cut \<in> set (g_nodes wg)"
      by blast+
    show "(set (expand remapping (fst cut)) \<times> set (expand remapping (snd cut))
            \<union> set (expand remapping (snd cut)) \<times> set (expand remapping (fst cut)))
           \<inter> set edges
        = (members edges affs (fst cut) \<times> members edges affs (snd cut)
            \<union> members edges affs (snd cut) \<times> members edges affs (fst cut))
           \<inter> set edges"
      unfolding prod [of "set (expand remapping (fst cut))"] ex [OF a] ex [OF b] ..
  qed
  also have "\<dots>
      = (\<Union>cut \<in> set cutset.
           members edges affs (fst cut) \<times> members edges affs (snd cut)
           \<union> members edges affs (snd cut) \<times> members edges affs (fst cut))
        \<inter> set edges"
    by blast
  finally have eq: "set ?res
      = (\<Union>cut \<in> set cutset.
           members edges affs (fst cut) \<times> members edges affs (snd cut)
           \<union> members edges affs (snd cut) \<times> members edges affs (fst cut))
        \<inter> set edges" .
  from ret sub eq show ?thesis by blast
qed

lemma chain_merge:
  "coalesced_edges chain_edges chain_affs = [(10, 30)]"
  "weighted_affs chain_edges chain_affs = [Fin 5]"
  "merge_mapping chain_edges chain_affs = [(10, 10), (20, 10), (30, 30), (40, 30)]"
  "merge_remapping chain_edges chain_affs 10 = Some [10, 20]"
  "merge_remapping chain_edges chain_affs 30 = Some [30, 40]"
proof -
  have len: "length chain_edges = length chain_affs" by (simp add: cut_example_defs)
  from merge_cross_chunk_edges_example obtain mapping remapping where
    m: "merge_cross_chunk_edges chain_edges chain_affs
          = Inr ([(10, 30)], [Fin 5], mapping, remapping)"
    and v: "mapping = [(10, 10), (20, 10), (30, 30), (40, 30)]"
       "remapping 10 = Some [10, 20]" "remapping 30 = Some [30, 40]"
    by blast
  from m have eq: "coalesced_edges chain_edges chain_affs = [(10, 30)]"
      "weighted_affs chain_edges chain_affs = [Fin 5]"
      "merge_mapping chain_edges chain_affs = mapping"
      "merge_remapping chain_edges chain_affs = remapping"
    unfolding merge_cross_chunk_edges_eq [OF len] by (simp_all add: coalesced_edges_def)
  show "coalesced_edges chain_edges chain_affs = [(10, 30)]" by (rule eq(1))
  show "weighted_affs chain_edges chain_affs = [Fin 5]" by (rule eq(2))
  show "merge_mapping chain_edges chain_affs = [(10, 10), (20, 10), (30, 30), (40, 30)]"
    unfolding eq(3) by (rule v(1))
  show "merge_remapping chain_edges chain_affs 10 = Some [10, 20]"
    unfolding eq(4) by (rule v(2))
  show "merge_remapping chain_edges chain_affs 30 = Some [30, 40]"
    unfolding eq(4) by (rule v(3))
qed

lemma chain_setup:
  "mincut_setup chain_edges chain_affs [10] [40]
   = Inr (Some (chain_graph, [10], [30], merge_remapping chain_edges chain_affs))"
proof -
  have len: "length chain_edges = length chain_affs" by (simp add: cut_example_defs)
  show ?thesis
    unfolding mincut_setup_eq [OF len] chain_merge(1,2,3)
    by (simp add: remap_terminal_def chain_graph_def)
qed

lemma chain_cutset:
  "mincut_cutset (fixed_cut [(10, 30)]) chain_graph [10] [30] = Inr (Inr [(10, 30)])"
  by (simp add: chain_graph_def bare_graph_def fixed_cut_def cut_defs)

lemma chain_mincut:
  "mincut (fixed_cut [(10, 30)]) chain_edges chain_affs [10] [40] = Inr ([], [(20, 30)])"
proof -
  have "uncoalesce (merge_remapping chain_edges chain_affs) [(10, 30)] chain_edges
      = filter (\<lambda>e. e \<in> set chain_edges)
          [(10, 30), (10, 40), (20, 30), (20, 40), (30, 10), (30, 20), (40, 10), (40, 20)]"
    by (simp add: uncoalesce_def expand_def chain_merge(4,5))
  also have "\<dots> = [(20, 30)]" by (simp add: chain_edges_def)
  finally show ?thesis unfolding mincut_def chain_setup by (simp add: chain_cutset)
qed

section \<open>\<open>cutting.py\<close>: claims\<close>

text \<open>
  C1. For edges and affinities of the same length, \<open>merge_cross_chunk_edges\<close> returns
  the weighted edges (those whose affinity is not infinite) with both ends replaced by
  their representatives, together with their affinities unchanged. The representative of
  a node is the smallest identifier in its connected component of the graph of
  cross-chunk edges; the mapping sends every node of the input edges to its
  representative; and a node on no cross-chunk edge is its own representative.
\<close>

theorem merge_cross_chunk_edges_representatives:
  assumes "length edges = length affs"
  shows "\<exists>mapping remapping.
      merge_cross_chunk_edges edges affs
        = Inr (map (\<lambda>e. (representative edges affs (fst e), representative edges affs (snd e)))
                 (weighted_edges edges affs),
               weighted_affs edges affs, mapping, remapping)
    \<and> (\<forall>u \<in> endpoints edges. map_of mapping u = Some (representative edges affs u))
    \<and> (\<forall>u. representative edges affs u = Min (component_of (cross_edges edges affs) u))
    \<and> (\<forall>u. u \<notin> endpoints (cross_edges edges affs) \<longrightarrow> representative edges affs u = u)"
proof -
  have 1: "\<forall>u \<in> endpoints edges.
      map_of (merge_mapping edges affs) u = Some (representative edges affs u)"
  proof
    fix u assume "u \<in> endpoints edges"
    from mapping_lookup(1) [OF this] mapping_keys(1) [of edges affs]
    show "map_of (merge_mapping edges affs) u = Some (representative edges affs u)"
      by (intro map_of_is_SomeI)
  qed
  have 2: "\<forall>u. representative edges affs u = Min (component_of (cross_edges edges affs) u)"
    by (simp add: representative_def)
  have 3: "\<forall>u. u \<notin> endpoints (cross_edges edges affs) \<longrightarrow> representative edges affs u = u"
    by (simp add: representative_def component_isolated)
  from merge_cross_chunk_edges_eq [OF assms] 1 2 3 show ?thesis by (intro exI conjI)
qed

theorem merge_cross_chunk_edges_representatives_witness:
  "length chain_edges = length chain_affs
   \<and> (\<exists>mapping remapping.
      merge_cross_chunk_edges chain_edges chain_affs
        = Inr (map (\<lambda>e. (representative chain_edges chain_affs (fst e),
                          representative chain_edges chain_affs (snd e)))
                 (weighted_edges chain_edges chain_affs),
               weighted_affs chain_edges chain_affs, mapping, remapping)
    \<and> (\<forall>u \<in> endpoints chain_edges.
          map_of mapping u
            = Some (representative chain_edges chain_affs u))
    \<and> (\<forall>u. representative chain_edges chain_affs u
          = Min (component_of (cross_edges chain_edges chain_affs) u))
    \<and> (\<forall>u. u \<notin> endpoints (cross_edges chain_edges chain_affs)
          \<longrightarrow> representative chain_edges chain_affs u = u))"
proof -
  have h: "length chain_edges = length chain_affs"
    by (simp add: cut_example_defs)
  from h merge_cross_chunk_edges_representatives [OF h] show ?thesis by (intro conjI)
qed

text \<open>
  C5. For edges and affinities of the same length, the first column of the mapping
  that \<open>merge_cross_chunk_edges\<close> builds holds every node of the input edges exactly
  once. So where \<open>mincut\<close> evaluates its assertion (the remapped edge list is not
  empty) the largest multiplicity is 1, and the first stage of \<open>mincut\<close> ends without
  an exception.
\<close>

theorem mapping_is_function:
  assumes "length edges = length affs"
  shows "\<exists>remapped_edges remapped_affs mapping remapping.
      merge_cross_chunk_edges edges affs = Inr (remapped_edges, remapped_affs, mapping, remapping)
    \<and> distinct (map fst mapping)
    \<and> set (map fst mapping) = endpoints edges
    \<and> (remapped_edges \<noteq> [] \<longrightarrow> max_count (map fst mapping) = Inr 1)
    \<and> (\<exists>r. mincut_setup edges affs sources sinks = Inr r)"
proof -
  have 3: "coalesced_edges edges affs \<noteq> [] \<longrightarrow>
      max_count (map fst (merge_mapping edges affs)) = Inr 1"
  proof
    assume "coalesced_edges edges affs \<noteq> []"
    then have "edges \<noteq> []"
      by (auto simp: coalesced_edges_def weighted_edges_def mask_select_def)
    then have "map fst (merge_mapping edges affs) \<noteq> []"
      using mapping_keys(2) [of edges affs] endpoints_empty [of edges] by (metis set_empty)
    from max_count_distinct [OF this mapping_keys(1)]
    show "max_count (map fst (merge_mapping edges affs)) = Inr 1" .
  qed
  have "\<exists>r. mincut_setup edges affs sources sinks = Inr r"
    unfolding mincut_setup_eq [OF assms] by simp
  then obtain r where 4: "mincut_setup edges affs sources sinks = Inr r" ..
  from merge_cross_chunk_edges_eq [OF assms, folded coalesced_edges_def]
    mapping_keys(1) [of edges affs] mapping_keys(2) [of edges affs] 3 4
  show ?thesis by (intro exI conjI)
qed

theorem mapping_is_function_witness:
  "length chain_edges = length chain_affs
   \<and> (\<exists>remapped_edges remapped_affs mapping remapping.
      merge_cross_chunk_edges chain_edges chain_affs
        = Inr (remapped_edges, remapped_affs, mapping, remapping)
    \<and> distinct (map fst mapping)
    \<and> set (map fst mapping) = endpoints chain_edges
    \<and> (remapped_edges \<noteq> [] \<longrightarrow> max_count (map fst mapping) = Inr 1)
    \<and> (\<exists>r. mincut_setup chain_edges chain_affs [10] [40] = Inr r))"
proof -
  have h: "length chain_edges = length chain_affs"
    by (simp add: cut_example_defs)
  from h mapping_is_function [OF h, of "[10]" "[40]"] show ?thesis by (intro conjI)
qed

text \<open>
  C4, as the code has it. In the working graph, every pair of sinks and every pair of
  sources carries the capacity \<open>float_max\<close>, the largest finite 32-bit float, which is
  not infinity. A weighted edge carries its affinity as capacity, in both directions,
  when no later weighted edge joins the same two nodes and its two ends are not both
  sinks or both sources.
\<close>

theorem working_graph_capacities:
  assumes "length edges = length affs"
  shows "\<exists>wg. working_graph edges affs sources sinks = Inr wg
    \<and> (\<forall>a \<in> set sinks. \<forall>b \<in> set sinks. g_cap wg (a, b) = Some float_max)
    \<and> (\<forall>a \<in> set sources. \<forall>b \<in> set sources. g_cap wg (a, b) = Some float_max)
    \<and> (\<forall>i < length edges.
          \<not> overwritten_later edges i \<and> \<not> terminal_pair sources sinks (edges ! i)
          \<longrightarrow> g_cap wg (edges ! i) = Some (affs ! i)
            \<and> g_cap wg (snd (edges ! i), fst (edges ! i)) = Some (affs ! i))
    \<and> float_max \<noteq> PInf"
proof -
  let ?Sk = "map (\<lambda>e. (e, float_max)) (List.product sinks sinks)"
  let ?Sr = "map (\<lambda>e. (e, float_max)) (List.product sources sources)"
  let ?z = "zip edges affs"
  let ?caps = "assign_caps (capacity_writes edges affs sources sinks) (\<lambda>e. None)"
  let ?wg = "(bare_graph edges sources sinks)\<lparr>g_cap := ?caps\<rparr>"
  have W: "capacity_writes edges affs sources sinks = ?z @ (?Sk @ ?Sr)"
    by (simp add: capacity_writes_def)
  have fm: "\<forall>p \<in> set (?Sk @ ?Sr). snd p = float_max" by auto
  have W': "assign_caps (?z @ (?Sk @ ?Sr)) (\<lambda>e. None)
      = assign_caps (?Sk @ ?Sr) (assign_caps ?z (\<lambda>e. None))"
    by (rule assign_caps_simps(3))
  have block: "?caps e = Some float_max" if "\<exists>p \<in> set (?Sk @ ?Sr). touches e (fst p)" for e
    unfolding W W' by (rule assign_caps_block [OF fm that])
  have 1: "\<forall>a \<in> set sinks. \<forall>b \<in> set sinks. g_cap ?wg (a, b) = Some float_max"
  proof (intro ballI)
    fix a b assume "a \<in> set sinks" "b \<in> set sinks"
    then have "((a, b), float_max) \<in> set (?Sk @ ?Sr)" by auto
    moreover have "touches (a, b) (fst ((a, b), float_max))" by (simp add: touches_def)
    ultimately have "?caps (a, b) = Some float_max" by (intro block bexI)
    then show "g_cap ?wg (a, b) = Some float_max" by simp
  qed
  have 2: "\<forall>a \<in> set sources. \<forall>b \<in> set sources. g_cap ?wg (a, b) = Some float_max"
  proof (intro ballI)
    fix a b assume "a \<in> set sources" "b \<in> set sources"
    then have "((a, b), float_max) \<in> set (?Sk @ ?Sr)" by auto
    moreover have "touches (a, b) (fst ((a, b), float_max))" by (simp add: touches_def)
    ultimately have "?caps (a, b) = Some float_max" by (intro block bexI)
    then show "g_cap ?wg (a, b) = Some float_max" by simp
  qed
  have 3: "\<forall>i < length edges.
      \<not> overwritten_later edges i \<and> \<not> terminal_pair sources sinks (edges ! i)
      \<longrightarrow> g_cap ?wg (edges ! i) = Some (affs ! i)
        \<and> g_cap ?wg (snd (edges ! i), fst (edges ! i)) = Some (affs ! i)"
  proof (intro allI impI, elim conjE)
    fix i
    assume i: "i < length edges" and later: "\<not> overwritten_later edges i"
      and tp: "\<not> terminal_pair sources sinks (edges ! i)"
    let ?e = "edges ! i" and ?e' = "(snd (edges ! i), fst (edges ! i))"
    let ?B = "drop (Suc i) ?z @ (?Sk @ ?Sr)"
    from i assms have iz: "i < length ?z" by simp
    have split: "capacity_writes edges affs sources sinks = take i ?z @ (?e, affs ! i) # ?B"
      unfolding W using id_take_nth_drop [OF iz] i assms by simp
    have sym: "touches ?e' x \<longleftrightarrow> touches ?e x" for x
      by (auto simp: touches_def)
    have un: "\<forall>p \<in> set ?B. \<not> touches ?e (fst p)"
    proof
      fix p assume "p \<in> set ?B"
      then consider (z) "p \<in> set (drop (Suc i) ?z)" | (t) "p \<in> set (?Sk @ ?Sr)" by auto
      then show "\<not> touches ?e (fst p)"
      proof cases
        case z
        then have "p \<in> set (zip (drop (Suc i) edges) (drop (Suc i) affs))"
          by (simp add: drop_zip)
        then have "fst p \<in> set (drop (Suc i) edges)"
          using set_zip_leftD [of "fst p" "snd p"] by auto
        with later show ?thesis
          by (auto simp: overwritten_later_def list_ex_iff)
      next
        case t
        then have "(fst (fst p) \<in> set sinks \<and> snd (fst p) \<in> set sinks)
            \<or> (fst (fst p) \<in> set sources \<and> snd (fst p) \<in> set sources)"
          by auto
        with tp show ?thesis
          by (auto simp: terminal_pair_def touches_def)
      qed
    qed
    then have un': "\<forall>p \<in> set ?B. \<not> touches ?e' (fst p)" by (simp add: sym)
    have a: "?caps ?e = Some (affs ! i)"
      unfolding split by (rule assign_caps_last [OF un]) (simp add: touches_def)
    have b: "?caps ?e' = Some (affs ! i)"
      unfolding split by (rule assign_caps_last [OF un']) (simp add: touches_def)
    from a b show "g_cap ?wg ?e = Some (affs ! i) \<and> g_cap ?wg ?e' = Some (affs ! i)"
      by simp
  qed
  have 4: "float_max \<noteq> PInf" by (simp add: float_max_def)
  from working_graph_eq [OF assms, of sources sinks] 1 2 3 4 show ?thesis
    by (intro exI conjI)
qed

theorem working_graph_capacities_witness:
  "length parallel_edges = length parallel_affs
   \<and> (\<exists>wg. working_graph parallel_edges parallel_affs [10] [30] = Inr wg
    \<and> (\<forall>a \<in> set [30]. \<forall>b \<in> set [30]. g_cap wg (a, b) = Some float_max)
    \<and> (\<forall>a \<in> set [10]. \<forall>b \<in> set [10]. g_cap wg (a, b) = Some float_max)
    \<and> (\<forall>i < length parallel_edges.
          \<not> overwritten_later parallel_edges i
          \<and> \<not> terminal_pair [10] [30] (parallel_edges ! i)
          \<longrightarrow> g_cap wg (parallel_edges ! i) = Some (parallel_affs ! i)
            \<and> g_cap wg (snd (parallel_edges ! i),
                        fst (parallel_edges ! i))
              = Some (parallel_affs ! i))
    \<and> float_max \<noteq> PInf)
   \<and> \<not> overwritten_later parallel_edges 0
   \<and> \<not> terminal_pair [10] [30] (parallel_edges ! 0)"
proof -
  have h: "length parallel_edges = length parallel_affs"
    by (simp add: cut_example_defs)
  have a: "\<not> overwritten_later parallel_edges 0"
    by (simp add: overwritten_later_def touches_def cut_example_defs)
  have b: "\<not> terminal_pair [10] [30] (parallel_edges ! 0)"
    by (simp add: terminal_pair_def cut_example_defs)
  note c = working_graph_capacities [OF h, of "[10]" "[30]"]
  show ?thesis by (rule conjI [OF h conjI [OF c conjI [OF a b]]])
qed

text \<open>
  C4 as stated fails. With sources 10 and 20 and sink 30, the weighted edge (10, 20) of
  affinity 1 joins two sources and carries \<open>float_max\<close>, which is neither its affinity
  nor infinity; and the first of the two weighted edges (20, 30), of affinity 2, carries
  the capacity 3 of the second.
\<close>

theorem capacity_not_affinity_counterexample:
  "setup_capacity (mincut_setup parallel_edges parallel_affs [10, 20] [30]) (10, 20)
     = Some float_max
   \<and> float_max \<noteq> Fin 1
   \<and> float_max \<noteq> PInf
   \<and> setup_capacity (mincut_setup parallel_edges parallel_affs [10, 20] [30]) (20, 30)
     = Some (Fin 3)
   \<and> Fin 3 \<noteq> Fin (2 :: real)"
proof -
  have le: "length parallel_edges = length parallel_affs"
    by (simp add: cut_example_defs)
  have cr: "cross_edges parallel_edges parallel_affs = []"
    by (simp add: cross_edges_def mask_select_def cut_example_defs)
  have we: "weighted_edges parallel_edges parallel_affs = parallel_edges"
    by (simp add: weighted_edges_def mask_select_def cut_example_defs)
  have wa: "weighted_affs parallel_edges parallel_affs = parallel_affs"
    by (simp add: weighted_affs_def mask_select_def cut_example_defs)
  have ne: "parallel_edges \<noteq> []" by (simp add: cut_example_defs)
  have s: "mincut_setup parallel_edges parallel_affs [10, 20] [30]
      = Inr (Some ((bare_graph parallel_edges [10, 20] [30])
               \<lparr>g_cap := assign_caps (capacity_writes parallel_edges parallel_affs [10, 20] [30])
                  (\<lambda>e. None)\<rparr>, [10, 20], [30], merge_remapping parallel_edges parallel_affs))"
    unfolding mincut_setup_eq [OF le] no_cross_edges(2,3) [OF cr] we wa using ne by simp
  have a: "setup_capacity (mincut_setup parallel_edges parallel_affs [10, 20] [30]) (10, 20)
      = Some float_max"
    unfolding s by (simp add: setup_capacity_def capacity_writes_def assign_caps_def
        cut_example_defs)
  have b: "setup_capacity (mincut_setup parallel_edges parallel_affs [10, 20] [30]) (20, 30)
      = Some (Fin 3)"
    unfolding s by (simp add: setup_capacity_def capacity_writes_def assign_caps_def
        cut_example_defs)
  have c: "float_max \<noteq> Fin 1" "float_max \<noteq> PInf" "Fin 3 \<noteq> Fin (2 :: real)"
    by (simp_all add: float_max_def)
  show ?thesis by (rule conjI [OF a conjI [OF c(1) conjI [OF c(2) conjI [OF b c(3)]]]])
qed



text \<open>
  C3. Every edge that \<open>mincut\<close> returns is one of the input edges. When the flow
  library returns a cut between nodes of the working graph, the returned edges are, as
  a set: for every cut edge, the pairs of an input node mapped to one end with an input
  node mapped to the other end, in both orders, that are input edges.
\<close>

theorem mincut_uncoalesce:
  "(mincut mc edges affs sources sinks = Inr (out, res) \<longrightarrow> set res \<subseteq> set edges)
   \<and> (mincut_setup edges affs sources sinks = Inr (Some (wg, rsources, rsinks, remapping))
      \<and> mincut_cutset mc wg rsources rsinks = Inr (Inr cutset)
      \<and> (\<forall>cut \<in> set cutset. fst cut \<in> set (g_nodes wg) \<and> snd cut \<in> set (g_nodes wg))
      \<longrightarrow> (\<exists>cut_edges.
             mincut mc edges affs sources sinks = Inr ([], cut_edges)
             \<and> set cut_edges
               = (\<Union>cut \<in> set cutset.
                    members edges affs (fst cut) \<times> members edges affs (snd cut)
                    \<union> members edges affs (snd cut) \<times> members edges affs (fst cut))
                 \<inter> set edges))"
proof (intro conjI impI)
  assume "mincut mc edges affs sources sinks = Inr (out, res)"
  then show "set res \<subseteq> set edges" by (rule mincut_returns_subset)
next
  assume a: "mincut_setup edges affs sources sinks = Inr (Some (wg, rsources, rsinks, remapping))
      \<and> mincut_cutset mc wg rsources rsinks = Inr (Inr cutset)
      \<and> (\<forall>cut \<in> set cutset. fst cut \<in> set (g_nodes wg) \<and> snd cut \<in> set (g_nodes wg))"
  from uncoalesce_members [of edges affs sources sinks wg rsources rsinks remapping mc cutset] a
  show "\<exists>cut_edges.
             mincut mc edges affs sources sinks = Inr ([], cut_edges)
             \<and> set cut_edges
               = (\<Union>cut \<in> set cutset.
                    members edges affs (fst cut) \<times> members edges affs (snd cut)
                    \<union> members edges affs (snd cut) \<times> members edges affs (fst cut))
                 \<inter> set edges"
    by blast
qed

theorem mincut_uncoalesce_witness:
  "mincut (fixed_cut [(10, 30)]) chain_edges chain_affs [10] [40] = Inr ([], [(20, 30)])
   \<and> mincut_setup chain_edges chain_affs [10] [40]
      = Inr (Some (chain_graph, [10], [30], merge_remapping chain_edges chain_affs))
   \<and> mincut_cutset (fixed_cut [(10, 30)]) chain_graph [10] [30] = Inr (Inr [(10, 30)])
   \<and> (10, 30) \<in> set (g_nodes chain_graph) \<times> set (g_nodes chain_graph)
   \<and> set [(20, 30)] \<subseteq> set chain_edges
   \<and> set [(20, 30)]
     = (\<Union>cut \<in> set [(10, 30)].
          members chain_edges chain_affs (fst cut) \<times> members chain_edges chain_affs (snd cut)
          \<union> members chain_edges chain_affs (snd cut) \<times> members chain_edges chain_affs (fst cut))
       \<inter> set chain_edges"
proof -
  have h1: "mincut (fixed_cut [(10, 30)]) chain_edges chain_affs [10] [40] = Inr ([], [(20, 30)])"
    by (rule chain_mincut)
  have h2: "mincut_setup chain_edges chain_affs [10] [40]
      = Inr (Some (chain_graph, [10], [30], merge_remapping chain_edges chain_affs))"
    by (rule chain_setup)
  have h3: "mincut_cutset (fixed_cut [(10, 30)]) chain_graph [10] [30] = Inr (Inr [(10, 30)])"
    by (rule chain_cutset)
  have h4: "\<forall>cut \<in> set [(10, 30)].
         fst cut \<in> set (g_nodes chain_graph) \<and> snd cut \<in> set (g_nodes chain_graph)"
    by (simp add: chain_graph_def bare_graph_props(1) endpoints_def)
  have h4': "(10, 30) \<in> set (g_nodes chain_graph) \<times> set (g_nodes chain_graph)"
    using h4 by simp
  note t = mincut_uncoalesce [of "fixed_cut [(10, 30)]" chain_edges chain_affs "[10]" "[40]"
      "[]" "[(20, 30)]" chain_graph "[10]" "[30]" "merge_remapping chain_edges chain_affs"
      "[(10, 30)]"]
  from t h1 have c1: "set [(20, 30)] \<subseteq> set chain_edges" by blast
  from t h2 h3 h4 obtain cut_edges where
      r: "mincut (fixed_cut [(10, 30)]) chain_edges chain_affs [10] [40] = Inr ([], cut_edges)"
    and e: "set cut_edges
     = (\<Union>cut \<in> set [(10, 30)].
          members chain_edges chain_affs (fst cut) \<times> members chain_edges chain_affs (snd cut)
          \<union> members chain_edges chain_affs (snd cut) \<times> members chain_edges chain_affs (fst cut))
       \<inter> set chain_edges"
    by blast
  from r h1 have "cut_edges = [(20, 30)]" by simp
  with e have c2: "set [(20, 30)]
     = (\<Union>cut \<in> set [(10, 30)].
          members chain_edges chain_affs (fst cut) \<times> members chain_edges chain_affs (snd cut)
          \<union> members chain_edges chain_affs (snd cut) \<times> members chain_edges chain_affs (fst cut))
       \<inter> set chain_edges"
    by simp
  show ?thesis
    by (rule conjI [OF h1 conjI [OF h2 conjI [OF h3 conjI [OF h4' conjI [OF c1 c2]]]]])
qed


end
